theory Spec2Isabelle
  imports Main
begin

section \<open>Data model of elevator.js\<close>

text \<open>
  The schedule \<open>elevatorStates\<close> is a JavaScript object whose keys are elevator
  identifiers and whose values are arrays of floor numbers. It is modelled as an
  association list in the order in which \<open>for ... in\<close> enumerates the keys
  (insertion order, after any keys that are array indices); a key is looked up with
  \<open>map_of\<close>. The keys of an object are distinct; the one theorem that needs it
  says so. Identifiers are strings of one-byte characters. Floors are integers; an
  array read past the end gives \<open>undefined\<close>, which is \<open>None\<close>. The time of
  a node counts the steps from the root.
\<close>

type_synonym elevator_states = "(string \<times> int list) list"

datatype error = TypeError

datatype node_data = NodeData (elevator: string) (floor: "int option") (time: nat)

text \<open>
  Class \<open>Node\<close>: the data and the array of children. Node objects are shared
  between the work list and their parent's \<open>children\<close> array and are mutated by
  \<open>addChild\<close>, so they live in a store: a list of nodes, addressed by position.
\<close>

datatype node = Node (data: node_data) (children: "nat list")

type_synonym heap = "node list"

text \<open>\<open>xs[i]\<close> of JavaScript: \<open>undefined\<close> out of range.\<close>

definition index :: "'a list \<Rightarrow> nat \<Rightarrow> 'a option" where
  "index xs i = (if i < length xs then Some (xs ! i) else None)"

text \<open>Truthiness of a floor value: \<open>undefined\<close> and \<open>0\<close> are falsy.\<close>

definition truthy :: "int option \<Rightarrow> bool" where
  "truthy v = (case v of None \<Rightarrow> False | Some n \<Rightarrow> n \<noteq> 0)"

section \<open>buildElevatorPathTree\<close>

text \<open>\<open>addChild\<close>: push the address of the child on the children of the node at \<open>a\<close>.\<close>

definition addChild :: "nat \<Rightarrow> nat \<Rightarrow> heap \<Rightarrow> heap" where
  "addChild a c h = h[a := Node (data (h ! a)) (children (h ! a) @ [c])]"

text \<open>
  The three statements that follow each test of the loop body: \<open>new Node(d)\<close>,
  \<open>currentNode.addChild(childNode)\<close> and \<open>listOfNodes.push(childNode)\<close>.
  The state is the store and the work list.
\<close>

definition appendChild :: "nat \<Rightarrow> node_data \<Rightarrow> heap \<times> nat list \<Rightarrow> heap \<times> nat list" where
  "appendChild a d s =
     (case s of (h, listOfNodes) \<Rightarrow>
        let childNode = length h
        in (addChild a childNode (h @ [Node d []]), listOfNodes @ [childNode]))"

text \<open>\<open>for (const k in obj)\<close> with a body that may raise.\<close>

fun for_in :: "('k \<Rightarrow> 's \<Rightarrow> error + 's) \<Rightarrow> 'k list \<Rightarrow> 's \<Rightarrow> error + 's" where
  "for_in body [] s = Inr s"
| "for_in body (k # ks) s =
     (case body k s of Inl err \<Rightarrow> Inl err | Inr s' \<Rightarrow> for_in body ks s')"

text \<open>
  The body of the while loop for the node at address \<open>a\<close>, after the shift.
  \<open>elevatorStates[e][t]\<close> raises a TypeError when \<open>elevatorStates[e]\<close> is undefined.
\<close>

definition expand ::
  "elevator_states \<Rightarrow> nat \<Rightarrow> heap \<times> nat list \<Rightarrow> error + heap \<times> nat list" where
  "expand elevatorStates a s =
     (let currentElevator = elevator (data (fst s ! a));
          currentTime = time (data (fst s ! a))
      in case map_of elevatorStates currentElevator of
           None \<Rightarrow> Inl TypeError
         | Some row \<Rightarrow>
             let nextFloorSameElevator = index row currentTime;
                 s1 = (if truthy nextFloorSameElevator
                       then appendChild a
                              (NodeData currentElevator nextFloorSameElevator (currentTime + 1)) s
                       else s)
             in for_in
                  (\<lambda>possibleNextElevator s'.
                     case map_of elevatorStates possibleNextElevator of
                       None \<Rightarrow> Inl TypeError
                     | Some row' \<Rightarrow>
                         let possibleNextFloor = index row' currentTime
                         in Inr (if truthy possibleNextFloor
                                    \<and> currentElevator \<noteq> possibleNextElevator
                                    \<and> nextFloorSameElevator = possibleNextFloor
                                 then appendChild a
                                        (NodeData possibleNextElevator possibleNextFloor
                                           (currentTime + 1)) s'
                                 else s'))
                  (map fst elevatorStates) s1)"

text \<open>
  The while loop: \<open>listOfNodes.shift()\<close> takes the head of the work list. A
  reference held in the work list always points into the store; the branch for an
  address outside the store is the TypeError that reading \<open>.data\<close> of
  \<open>undefined\<close> would raise.
\<close>

function buildLoop :: "elevator_states \<Rightarrow> heap \<Rightarrow> nat list \<Rightarrow> error + heap" where
  "buildLoop elevatorStates h [] = Inr h"
| "buildLoop elevatorStates h (currentNode # listOfNodes) =
     (if currentNode < length h
      then (case expand elevatorStates currentNode (h, listOfNodes) of
              Inl err \<Rightarrow> Inl err
            | Inr s \<Rightarrow> buildLoop elevatorStates (fst s) (snd s))
      else Inl TypeError)"
  by pat_completeness auto

subsection \<open>Termination of the loop\<close>

text \<open>
  What one pass of the loop body creates, in order, for a node with data \<open>d\<close>: the
  data of the same-elevator child (when the floor read is truthy) followed by the data
  of one child per key that passes the test of the for-in loop. The two lemmas
  \<open>for_in_attach\<close> and \<open>expand_attach\<close> show that \<open>expand\<close> stores exactly these.
\<close>

definition transfer_ok :: "elevator_states \<Rightarrow> string \<Rightarrow> nat \<Rightarrow> int option \<Rightarrow> string \<Rightarrow> bool" where
  "transfer_ok es e t nf k =
     (case map_of es k of None \<Rightarrow> False
      | Some row' \<Rightarrow> truthy (index row' t) \<and> e \<noteq> k \<and> nf = index row' t)"

definition child_data :: "elevator_states \<Rightarrow> node_data \<Rightarrow> node_data list" where
  "child_data es d =
     (case map_of es (elevator d) of
        None \<Rightarrow> []
      | Some row \<Rightarrow>
          (if truthy (index row (time d))
           then [NodeData (elevator d) (index row (time d)) (time d + 1)] else []) @
          map (\<lambda>k. NodeData k (index row (time d)) (time d + 1))
            (filter (transfer_ok es (elevator d) (time d) (index row (time d))) (map fst es)))"

definition attach :: "nat \<Rightarrow> node_data list \<Rightarrow> heap \<times> nat list \<Rightarrow> heap \<times> nat list" where
  "attach a ds s =
     (case s of (h, q) \<Rightarrow>
        (h[a := Node (data (h ! a)) (children (h ! a) @ [length h ..< length h + length ds])]
           @ map (\<lambda>d. Node d []) ds,
         q @ [length h ..< length h + length ds]))"

lemma appendChild_attach:
  "a < length h \<Longrightarrow> appendChild a d (h, q) = attach a [d] (h, q)"
  by (simp add: appendChild_def attach_def addChild_def Let_def nth_append list_update_append1)

lemma attach_attach:
  assumes "a < length h"
  shows "attach a ds2 (attach a ds1 (h, q)) = attach a (ds1 @ ds2) (h, q)"
proof -
  have u: "[length h..<length h + length ds1] @ [length h + length ds1..<length h + length ds1 + length ds2]
           = [length h..<length h + (length ds1 + length ds2)]"
    using upt_add_eq_append[of "length h" "length h + length ds1" "length ds2"]
    by (simp add: add.assoc)
  show ?thesis
    using assms by (simp add: attach_def nth_append list_update_append1 u)
qed

lemma attach_Nil: "a < length h \<Longrightarrow> attach a [] (h, q) = (h, q)"
  by (simp add: attach_def)

lemma for_in_attach:
  assumes "a < length h" and "set ks \<subseteq> fst ` set es"
  shows "for_in
          (\<lambda>k s'. case map_of es k of
                     None \<Rightarrow> Inl TypeError
                   | Some row' \<Rightarrow>
                       Inr (if truthy (index row' t) \<and> e \<noteq> k \<and> nf = index row' t
                            then appendChild a (NodeData k (index row' t) (t + 1)) s' else s'))
          ks (attach a ds (h, q))
         = Inr (attach a (ds @ map (\<lambda>k. NodeData k nf (t + 1)) (filter (transfer_ok es e t nf) ks)) (h, q))"
  using assms
proof (induction ks arbitrary: ds)
  case Nil
  then show ?case by simp
next
  case (Cons k ks)
  from Cons.prems obtain row' where row': "map_of es k = Some row'"
    by (metis list.set_intros(1) map_of_eq_None_iff not_Some_eq subsetD)
  have len: "a < length (fst (attach a ds (h, q)))"
    using Cons.prems(1) by (simp add: attach_def)
  obtain h1 q1 where hq: "attach a ds (h, q) = (h1, q1)" by force
  with len have len1: "a < length h1" by simp
  let ?body = "(\<lambda>k s'. case map_of es k of
                     None \<Rightarrow> Inl TypeError
                   | Some row' \<Rightarrow>
                       Inr (if truthy (index row' t) \<and> e \<noteq> k \<and> nf = index row' t
                            then appendChild a (NodeData k (index row' t) (t + 1)) s' else s'))"
  have ks: "set ks \<subseteq> fst ` set es" using Cons.prems(2) by simp
  note IH = Cons.IH[OF Cons.prems(1) ks]
  show ?case
  proof (cases "transfer_ok es e t nf k")
    case True
    then have pf: "index row' t = nf" and c: "truthy nf" "e \<noteq> k"
      using row' by (auto simp add: transfer_ok_def)
    have "appendChild a (NodeData k nf (t + 1)) (h1, q1) = attach a [NodeData k nf (t + 1)] (h1, q1)"
      using len1 by (rule appendChild_attach)
    also have "\<dots> = attach a (ds @ [NodeData k nf (t + 1)]) (h, q)"
      unfolding hq[symmetric] using Cons.prems(1) by (rule attach_attach)
    finally have step: "?body k (attach a ds (h, q)) = Inr (attach a (ds @ [NodeData k nf (t + 1)]) (h, q))"
      using row' c hq by (simp add: Let_def pf)
    have "for_in ?body (k # ks) (attach a ds (h, q)) = for_in ?body ks (attach a (ds @ [NodeData k nf (t + 1)]) (h, q))"
      by (simp only: for_in.simps step sum.case)
    also have "\<dots> = Inr (attach a ((ds @ [NodeData k nf (t + 1)]) @ map (\<lambda>k. NodeData k nf (t + 1)) (filter (transfer_ok es e t nf) ks)) (h, q))"
      by (rule IH)
    finally show ?thesis using True by (simp only: filter.simps if_True append_assoc list.map append.simps)
  next
    case False
    then have c: "\<not> (truthy (index row' t) \<and> e \<noteq> k \<and> nf = index row' t)"
      using row' by (simp add: transfer_ok_def)
    have step: "?body k (attach a ds (h, q)) = Inr (attach a ds (h, q))"
      using row' c by (auto simp add: Let_def)
    have "for_in ?body (k # ks) (attach a ds (h, q)) = for_in ?body ks (attach a ds (h, q))"
      by (simp only: for_in.simps step sum.case)
    also have "\<dots> = Inr (attach a (ds @ map (\<lambda>k. NodeData k nf (t + 1)) (filter (transfer_ok es e t nf) ks)) (h, q))"
      by (rule IH)
    finally show ?thesis using False by (simp only: filter.simps if_False)
  qed
qed

lemma child_data_alt:
  "map_of es (elevator d) = Some row \<Longrightarrow>
   child_data es d =
     (if truthy (index row (time d)) then [NodeData (elevator d) (index row (time d)) (time d + 1)] else []) @
      map (\<lambda>k. NodeData k (index row (time d)) (time d + 1))
        (filter (transfer_ok es (elevator d) (time d) (index row (time d))) (map fst es))"
  by (simp add: child_data_def)

lemma expand_attach:
  assumes a: "a < length h" and row: "map_of es (elevator (data (h ! a))) = Some row"
  shows "expand es a (h, q) = Inr (attach a (child_data es (data (h ! a))) (h, q))"
proof -
  let ?d = "data (h ! a)"
  let ?nf = "index row (time ?d)"
  let ?same = "if truthy ?nf then [NodeData (elevator ?d) ?nf (time ?d + 1)] else []"
  have s1: "(if truthy ?nf then appendChild a (NodeData (elevator ?d) ?nf (time ?d + 1)) (h, q) else (h, q))
            = attach a ?same (h, q)"
    using a by (simp add: appendChild_attach attach_Nil)
  have ks: "set (map fst es) \<subseteq> fst ` set es" by simp
  show ?thesis
    unfolding expand_def Let_def fst_conv row option.case s1
    unfolding child_data_alt[OF row]
    by (rule for_in_attach[OF a ks])
qed

lemma expand_error:
  "map_of es (elevator (data (h ! a))) = None \<Longrightarrow> expand es a (h, q) = Inl TypeError"
  by (simp add: expand_def)

definition horizon :: "elevator_states \<Rightarrow> nat" where
  "horizon es = fold max (map (\<lambda>kv. length (snd kv)) es) 0"

lemma fold_max_ge: "(m::nat) \<le> fold max xs m"
  by (induction xs arbitrary: m) (auto intro: order_trans[OF max.cobounded2])

lemma fold_max_mem: "(x::nat) \<in> set xs \<Longrightarrow> x \<le> fold max xs m"
proof (induction xs arbitrary: m)
  case Nil
  then show ?case by simp
next
  case (Cons y ys)
  show ?case
  proof (cases "x = y")
    case True
    have "x \<le> max y m" using True by simp
    also have "\<dots> \<le> fold max ys (max y m)" by (rule fold_max_ge)
    finally show ?thesis by simp
  next
    case False
    with Cons show ?thesis by simp
  qed
qed

lemma horizon_ge: "map_of es k = Some row \<Longrightarrow> length row \<le> horizon es"
  unfolding horizon_def
  by (rule fold_max_mem) (force dest: map_of_SomeD)

definition weight :: "elevator_states \<Rightarrow> heap \<Rightarrow> nat \<Rightarrow> nat" where
  "weight es h x =
     (if x < length h then (length es + 2) ^ (horizon es - time (data (h ! x)))
      else (length es + 2) ^ horizon es)"

lemma child_data_time: "c \<in> set (child_data es d) \<Longrightarrow> time c = time d + 1"
  by (auto simp: child_data_def Let_def split: option.splits if_splits)

lemma child_data_length: "length (child_data es d) \<le> length es + 1"
proof (cases "map_of es (elevator d)")
  case None
  then show ?thesis by (simp add: child_data_def)
next
  case (Some row)
  show ?thesis
    by (simp add: child_data_alt[OF Some] le_SucI)
qed

lemma truthy_index: "truthy (index row t) \<Longrightarrow> t < length row"
  by (simp add: truthy_def index_def split: if_splits)

lemma child_data_nonempty:
  assumes "child_data es d \<noteq> []"
  shows "time d < horizon es"
proof -
  from assms obtain row where row: "map_of es (elevator d) = Some row"
    by (auto simp: child_data_def split: option.splits)
  have "truthy (index row (time d))"
  proof (rule ccontr)
    assume n: "\<not> truthy (index row (time d))"
    have "filter (transfer_ok es (elevator d) (time d) (index row (time d))) (map fst es) = []"
      using n by (auto simp: filter_empty_conv transfer_ok_def split: option.splits)
    with n assms show False by (simp add: child_data_alt[OF row])
  qed
  then have "time d < length row" by (rule truthy_index)
  with horizon_ge[OF row] show ?thesis by simp
qed

lemma attach_data_old:
  "x < length h \<Longrightarrow> data (fst (attach a ds (h, q)) ! x) = data (h ! x)"
  by (cases "x = a") (simp_all add: attach_def nth_append)

lemma attach_data_new:
  "i < length ds \<Longrightarrow> fst (attach a ds (h, q)) ! (length h + i) = Node (ds ! i) []"
  by (simp add: attach_def nth_append)

lemma attach_length: "length (fst (attach a ds (h, q))) = length h + length ds"
  by (simp add: attach_def)

lemma attach_queue: "snd (attach a ds (h, q)) = q @ [length h ..< length h + length ds]"
  by (simp add: attach_def)

lemma weight_le_top: "weight es h x \<le> (length es + 2) ^ horizon es"
  by (simp add: weight_def power_increasing)

lemma weight_attach_old: "weight es (fst (attach a ds (h, q))) x \<le> weight es h x"
proof (cases "x < length h")
  case True
  then show ?thesis by (simp add: weight_def attach_length attach_data_old)
next
  case False
  then have "weight es h x = (length es + 2) ^ horizon es" by (simp add: weight_def)
  then show ?thesis using weight_le_top[of es "fst (attach a ds (h, q))" x] by simp
qed

lemma weight_attach_new:
  assumes "x \<in> set [length h ..< length h + length ds]" and "\<forall>c\<in>set ds. time c = t + 1"
  shows "weight es (fst (attach a ds (h, q))) x = (length es + 2) ^ (horizon es - (t + 1))"
proof -
  from assms(1) obtain i where i: "x = length h + i" "i < length ds"
    by (auto simp: le_iff_add)
  with assms(2) have "time (ds ! i) = t + 1" by simp
  with i show ?thesis
    by (simp add: weight_def attach_length attach_data_new)
qed

lemma sum_list_const: "(\<forall>x\<in>set xs. f x = (c::nat)) \<Longrightarrow> sum_list (map f xs) = length xs * c"
  by (induction xs) auto

lemma expand_decreases:
  assumes a: "a < length h" and ex: "expand es a (h, q) = Inr s"
  shows "sum_list (map (weight es (fst s)) (snd s)) < sum_list (map (weight es h) (a # q))"
proof -
  let ?d = "data (h ! a)"
  let ?ds = "child_data es ?d"
  let ?B = "length es + 2"
  let ?H = "horizon es"
  from ex obtain row where row: "map_of es (elevator ?d) = Some row"
    by (cases "map_of es (elevator ?d)") (simp_all add: expand_error)
  from ex have s: "s = attach a ?ds (h, q)"
    by (simp add: expand_attach[OF a row])
  let ?h' = "fst (attach a ?ds (h, q))"
  let ?new = "[length h ..< length h + length ?ds]"
  have old: "sum_list (map (weight es ?h') q) \<le> sum_list (map (weight es h) q)"
    by (rule sum_list_mono) (rule weight_attach_old)
  have "\<forall>x\<in>set ?new. weight es ?h' x = ?B ^ (?H - (time ?d + 1))"
    using weight_attach_new[of _ h ?ds "time ?d" es a q] child_data_time[of _ es ?d] by blast
  then have new: "sum_list (map (weight es ?h') ?new) = length ?ds * ?B ^ (?H - (time ?d + 1))"
    using sum_list_const[of ?new "weight es ?h'"] by simp
  have lt: "length ?ds * ?B ^ (?H - (time ?d + 1)) < ?B ^ (?H - time ?d)"
  proof (cases "?ds = []")
    case True
    then show ?thesis by simp
  next
    case False
    then have "time ?d < ?H" by (rule child_data_nonempty)
    then have e: "?H - time ?d = Suc (?H - (time ?d + 1))" by simp
    have "length ?ds < ?B" using child_data_length[of es ?d] by simp
    moreover have "0 < ?B ^ (?H - (time ?d + 1))" by simp
    ultimately have "length ?ds * ?B ^ (?H - (time ?d + 1)) < ?B * ?B ^ (?H - (time ?d + 1))"
      by (rule mult_less_mono1)
    then show ?thesis unfolding e by simp
  qed
  have "sum_list (map (weight es (fst s)) (snd s))
        = sum_list (map (weight es ?h') q) + sum_list (map (weight es ?h') ?new)"
    by (simp add: s attach_queue)
  also have "\<dots> < sum_list (map (weight es h) q) + ?B ^ (?H - time ?d)"
    using old new lt by simp
  also have "\<dots> = sum_list (map (weight es h) (a # q))"
    using a by (simp add: weight_def)
  finally show ?thesis .
qed

termination buildLoop
  by (relation "measure (\<lambda>(es, h, q). sum_list (map (weight es h) q))")
     (auto dest: expand_decreases)

text \<open>
  \<open>buildElevatorPathTree\<close>: the root is stored at address 0 (\<open>this.root\<close>); reading
  \<open>elevatorStates[startingElevator][0]\<close> raises a TypeError for an unknown elevator.
  The schedule is taken to have its own keys only: a name that a JavaScript object
  inherits from its prototype (such as "constructor") is unknown here, where the
  program would read an undefined floor for it and build a root without children.
  The result is the store when the loop has emptied the work list.
\<close>

definition buildElevatorPathTree :: "elevator_states \<Rightarrow> string \<Rightarrow> error + heap" where
  "buildElevatorPathTree elevatorStates startingElevator =
     (case map_of elevatorStates startingElevator of
        None \<Rightarrow> Inl TypeError
      | Some row \<Rightarrow>
          buildLoop elevatorStates [Node (NodeData startingElevator (index row 0) 0) []] [0])"

section \<open>The finished tree as a value\<close>

text \<open>
  The search only reads the object graph below \<open>this.root\<close>. It is read out of the
  store as a value: the node at an address with the trees of its children, in the order
  of the \<open>children\<close> array. The builder only ever stores child addresses that are
  larger than the parent's and inside the store (lemma \<open>built_children_range\<close>
  below), which is what the guard of the recursion asks for.
\<close>

datatype tnode = TNode (tdata: node_data) (tchildren: "tnode list")

function tree_of :: "heap \<Rightarrow> nat \<Rightarrow> tnode" where
  "tree_of h a =
     TNode (data (h ! a))
       (map (tree_of h) (filter (\<lambda>c. a < c \<and> c < length h) (children (h ! a))))"
  by pat_completeness auto

termination tree_of
  by (relation "measure (\<lambda>(h, a). length h - a)") auto

declare tree_of.simps [simp del]

section \<open>findFinalDestinationPath\<close>

text \<open>
  The two targets are JavaScript numbers produced by \<open>parseInt\<close>: an integer or
  \<open>NaN\<close>. Every comparison with \<open>NaN\<close> is false; \<open>undefined === n\<close> is false.
\<close>

datatype number = Num int | NaN

definition less_number :: "nat \<Rightarrow> number \<Rightarrow> bool" where
  "less_number t n = (case n of Num i \<Rightarrow> int t < i | NaN \<Rightarrow> False)"

definition equals_number :: "nat \<Rightarrow> number \<Rightarrow> bool" where
  "equals_number t n = (case n of Num i \<Rightarrow> int t = i | NaN \<Rightarrow> False)"

definition equals_floor :: "int option \<Rightarrow> number \<Rightarrow> bool" where
  "equals_floor f n =
     (case f of None \<Rightarrow> False
      | Some x \<Rightarrow> (case n of Num i \<Rightarrow> x = i | NaN \<Rightarrow> False))"

text \<open>\<open>pathStack.pop()\<close>, \<open>n\<close> times; popping an empty array leaves it empty.\<close>

fun pops :: "nat \<Rightarrow> 'a list \<Rightarrow> 'a list" where
  "pops 0 xs = xs"
| "pops (Suc n) xs = pops n (butlast xs)"

text \<open>
  The while loop of the search. \<open>shift\<close> takes the head of the array,
  \<open>unshift(...children)\<close> puts the children in front of it, in their order. The
  for loop pops \<open>currentLevel - currentNodeTime + 1\<close> times. The result is
  \<open>pathStack.join("").substring(1)\<close>, or \<open>None\<close> for \<open>null\<close>.
\<close>

function searchLoop ::
  "number \<Rightarrow> number \<Rightarrow> tnode list \<Rightarrow> nat \<Rightarrow> string list \<Rightarrow> string option" where
  "searchLoop finalFloor finalTimeInterval [] currentLevel pathStack = None"
| "searchLoop finalFloor finalTimeInterval (currentNode # arrayOfNodesToTraverse)
     currentLevel pathStack =
     (let currentNodeFloor = floor (tdata currentNode);
          currentNodeElevator = elevator (tdata currentNode);
          currentNodeTime = time (tdata currentNode);
          pathStack' = (if currentLevel < currentNodeTime
                        then pathStack @ [currentNodeElevator]
                        else pops (currentLevel - currentNodeTime + 1) pathStack
                               @ [currentNodeElevator]);
          currentLevel' = currentNodeTime;
          nodes' = (if less_number currentNodeTime finalTimeInterval
                    then tchildren currentNode @ arrayOfNodesToTraverse
                    else arrayOfNodesToTraverse)
      in if equals_number currentLevel' finalTimeInterval
            \<and> equals_floor currentNodeFloor finalFloor
         then Some (drop 1 (concat pathStack'))
         else searchLoop finalFloor finalTimeInterval nodes' currentLevel' pathStack')"
  by pat_completeness auto

lemma sum_size_children: "sum_list (map size (tchildren n)) < size n"
proof (cases n)
  case (TNode d cs)
  have "sum_list (map size cs) \<le> size_list size cs"
    by (induction cs) auto
  then show ?thesis using TNode by simp
qed

lemma size_tnode_pos: "0 < size (n :: tnode)"
  by (cases n) simp

termination searchLoop
  by (relation "measure (\<lambda>(f, t, nodes, l, p). sum_list (map size nodes))")
     (auto simp: sum_size_children size_tnode_pos)

definition findFinalDestinationPath :: "tnode \<Rightarrow> number \<Rightarrow> number \<Rightarrow> string option" where
  "findFinalDestinationPath root finalFloor finalTimeInterval =
     searchLoop finalFloor finalTimeInterval [root] 0 []"

section \<open>findElevatorPath\<close>

text \<open>\<open>finalDestination.split("-")\<close>: the pieces between the dashes.\<close>

fun split :: "char \<Rightarrow> string \<Rightarrow> string list" where
  "split sep [] = [[]]"
| "split sep (c # cs) =
     (if c = sep then [] # split sep cs
      else (case split sep cs of [] \<Rightarrow> [[c]] | p # ps \<Rightarrow> (c # p) # ps))"

text \<open>
  \<open>parseInt\<close> without a radix, on a string of one-byte characters: leading white
  space is skipped, then an optional sign, an optional \<open>0x\<close> prefix that selects
  radix 16, and the longest run of digits of the radix; no digit gives \<open>NaN\<close>.
  The value is exact as long as it is below \<open>2^53\<close>, which is how far a JavaScript
  number holds every integer.
\<close>

definition isWhiteSpace :: "char \<Rightarrow> bool" where
  "isWhiteSpace c = (c \<in> set [CHR 0x09, CHR 0x0A, CHR 0x0B, CHR 0x0C, CHR 0x0D, CHR 0x20, CHR 0xA0])"

definition digitValue :: "char \<Rightarrow> nat option" where
  "digitValue c =
     (let n = (of_char c :: nat)
      in if 48 \<le> n \<and> n \<le> 57 then Some (n - 48)
         else if 97 \<le> n \<and> n \<le> 122 then Some (n - 87)
         else if 65 \<le> n \<and> n \<le> 90 then Some (n - 55)
         else None)"

definition isDigit :: "nat \<Rightarrow> char \<Rightarrow> bool" where
  "isDigit radix c = (case digitValue c of None \<Rightarrow> False | Some v \<Rightarrow> v < radix)"

definition digitsValue :: "nat \<Rightarrow> string \<Rightarrow> nat" where
  "digitsValue radix ds =
     foldl (\<lambda>acc c. acc * radix + (case digitValue c of None \<Rightarrow> 0 | Some v \<Rightarrow> v)) 0 ds"

definition parseInt :: "string option \<Rightarrow> number" where
  "parseInt arg =
     (case arg of
        None \<Rightarrow> NaN
      | Some inputString \<Rightarrow>
          let s = dropWhile isWhiteSpace inputString;
              sign = (if take 1 s = ''-'' then - 1 else 1 :: int);
              s = (if take 1 s = ''+'' \<or> take 1 s = ''-'' then drop 1 s else s);
              hex = (take 2 s = ''0x'' \<or> take 2 s = ''0X'');
              radix = (if hex then 16 else 10);
              s = (if hex then drop 2 s else s);
              z = takeWhile (isDigit radix) s
          in if z = [] then NaN else Num (sign * int (digitsValue radix z)))"

text \<open>
  \<open>findElevatorPath\<close>. The tree is built first, so an unknown starting elevator
  raises before anything is parsed. \<open>path || "There is no solution"\<close> gives the
  message when the path is \<open>null\<close> and also when it is the empty string.
\<close>

definition noSolution :: string where
  "noSolution = ''There is no solution''"

definition findElevatorPath :: "elevator_states \<Rightarrow> string \<Rightarrow> string \<Rightarrow> error + string" where
  "findElevatorPath elevatorStates startingElevator finalDestination =
     (case buildElevatorPathTree elevatorStates startingElevator of
        Inl err \<Rightarrow> Inl err
      | Inr h \<Rightarrow>
          let finalDestinationData = split CHR ''-'' finalDestination;
              finalFloor = parseInt (index finalDestinationData 0);
              finalTimeInterval = parseInt (index finalDestinationData 1);
              path = findFinalDestinationPath (tree_of h 0) finalFloor finalTimeInterval
          in Inr (case path of
                    None \<Rightarrow> noSolution
                  | Some p \<Rightarrow> if p = [] then noSolution else p))"

text \<open>The three test cases of the file.\<close>

definition testCase1 :: elevator_states where
  "testCase1 =
     [(''A'', [1, 4, 3, 2, 2]), (''B'', [3, 3, 3, 4, 2]),
      (''C'', [2, 2, 6, 6, 6]), (''D'', [6, 1, 1, 4, 5])]"

definition testCase2 :: elevator_states where
  "testCase2 =
     [(''A'', [1, 7, 7, 7, 5, 2, 1]), (''B'', [2, 9, 6, 3, 9, 8, 3]),
      (''C'', [9, 8, 7, 5, 5, 4, 5]), (''D'', [2, 1, 3, 4, 8, 1, 2]),
      (''E'', [8, 1, 5, 5, 6, 7, 7])]"

definition testCase3 :: elevator_states where
  "testCase3 =
     [(''A'', [1, 7, 7, 7, 7, 2, 1]), (''B'', [2, 9, 6, 3, 9, 8, 3]),
      (''C'', [9, 8, 7, 5, 5, 4, 5]), (''D'', [2, 1, 3, 4, 8, 1, 2]),
      (''E'', [8, 1, 5, 5, 6, 7, 7])]"

section \<open>What the builder leaves in the store\<close>

text \<open>
  \<open>node_ok\<close>: a node other than the root sits on an elevator of the schedule, at a
  time \<open>t > 0\<close>, and its floor is the truthy entry \<open>t - 1\<close> of that elevator's
  array. \<open>heap_inv es k h\<close>: the nodes below address \<open>k\<close> have been expanded and
  carry exactly the children of \<open>child_data\<close>, at larger addresses; the nodes from
  \<open>k\<close> on are the work list and have no children yet.
\<close>

definition node_ok :: "elevator_states \<Rightarrow> node_data \<Rightarrow> bool" where
  "node_ok es d =
     (case map_of es (elevator d) of
        None \<Rightarrow> False
      | Some row \<Rightarrow> 0 < time d \<and> floor d = index row (time d - 1) \<and> truthy (floor d))"

definition heap_inv :: "elevator_states \<Rightarrow> nat \<Rightarrow> heap \<Rightarrow> bool" where
  "heap_inv es k h =
     (k \<le> length h \<and> 0 < length h \<and>
      (\<forall>a < length h.
         map_of es (elevator (data (h ! a))) \<noteq> None \<and>
         (0 < a \<longrightarrow> node_ok es (data (h ! a))) \<and>
         (\<forall>c \<in> set (children (h ! a)). a < c \<and> c < length h) \<and>
         (a < k \<longrightarrow> map (\<lambda>c. data (h ! c)) (children (h ! a)) = child_data es (data (h ! a))
             \<and> distinct (children (h ! a))) \<and>
         (k \<le> a \<longrightarrow> children (h ! a) = [])))"

lemma heap_invI:
  assumes "k \<le> length h" and "0 < length h"
    and "\<And>a. a < length h \<Longrightarrow> map_of es (elevator (data (h ! a))) \<noteq> None"
    and "\<And>a. a < length h \<Longrightarrow> 0 < a \<Longrightarrow> node_ok es (data (h ! a))"
    and "\<And>a c. a < length h \<Longrightarrow> c \<in> set (children (h ! a)) \<Longrightarrow> a < c \<and> c < length h"
    and "\<And>a. a < length h \<Longrightarrow> a < k \<Longrightarrow>
           map (\<lambda>c. data (h ! c)) (children (h ! a)) = child_data es (data (h ! a))"
    and "\<And>a. a < length h \<Longrightarrow> a < k \<Longrightarrow> distinct (children (h ! a))"
    and "\<And>a. a < length h \<Longrightarrow> k \<le> a \<Longrightarrow> children (h ! a) = []"
  shows "heap_inv es k h"
  unfolding heap_inv_def using assms by blast

lemma heap_inv_bounds: "heap_inv es k h \<Longrightarrow> k \<le> length h \<and> 0 < length h"
  unfolding heap_inv_def by blast

lemma heap_inv_key:
  "heap_inv es k h \<Longrightarrow> a < length h \<Longrightarrow> map_of es (elevator (data (h ! a))) \<noteq> None"
  unfolding heap_inv_def by blast

lemma heap_inv_node_ok:
  "heap_inv es k h \<Longrightarrow> a < length h \<Longrightarrow> 0 < a \<Longrightarrow> node_ok es (data (h ! a))"
  unfolding heap_inv_def by blast

lemma heap_inv_range:
  "heap_inv es k h \<Longrightarrow> a < length h \<Longrightarrow> c \<in> set (children (h ! a)) \<Longrightarrow> a < c \<and> c < length h"
  unfolding heap_inv_def by blast

lemma heap_inv_children:
  "heap_inv es k h \<Longrightarrow> a < length h \<Longrightarrow> a < k \<Longrightarrow>
   map (\<lambda>c. data (h ! c)) (children (h ! a)) = child_data es (data (h ! a))"
  unfolding heap_inv_def by blast

lemma heap_inv_distinct:
  "heap_inv es k h \<Longrightarrow> a < length h \<Longrightarrow> a < k \<Longrightarrow> distinct (children (h ! a))"
  unfolding heap_inv_def by blast

lemma heap_inv_pending:
  "heap_inv es k h \<Longrightarrow> a < length h \<Longrightarrow> k \<le> a \<Longrightarrow> children (h ! a) = []"
  unfolding heap_inv_def by blast

lemma child_data_node_ok:
  assumes "c \<in> set (child_data es d)"
  shows "node_ok es c"
proof (cases "map_of es (elevator d)")
  case None
  with assms show ?thesis by (simp add: child_data_def)
next
  case (Some row)
  let ?nf = "index row (time d)"
  from assms have "c \<in> set (if truthy ?nf then [NodeData (elevator d) ?nf (time d + 1)] else [])
      \<or> c \<in> (\<lambda>k. NodeData k ?nf (time d + 1)) ` set (filter (transfer_ok es (elevator d) (time d) ?nf) (map fst es))"
    unfolding child_data_alt[OF Some] set_append set_map by blast
  then show ?thesis
  proof
    assume "c \<in> set (if truthy ?nf then [NodeData (elevator d) ?nf (time d + 1)] else [])"
    then have "truthy ?nf" "c = NodeData (elevator d) ?nf (time d + 1)"
      by (simp_all split: if_splits)
    then show ?thesis using Some by (simp add: node_ok_def)
  next
    assume "c \<in> (\<lambda>k. NodeData k ?nf (time d + 1)) ` set (filter (transfer_ok es (elevator d) (time d) ?nf) (map fst es))"
    then obtain k where k: "transfer_ok es (elevator d) (time d) ?nf k" "c = NodeData k ?nf (time d + 1)"
      by auto
    from k(1) obtain row' where r: "map_of es k = Some row'" "truthy (index row' (time d))" "?nf = index row' (time d)"
      by (cases "map_of es k") (simp_all add: transfer_ok_def)
    show ?thesis using k(2) r by (simp add: node_ok_def)
  qed
qed

lemma attach_nth_other:
  "x < length h \<Longrightarrow> x \<noteq> a \<Longrightarrow> fst (attach a ds (h, q)) ! x = h ! x"
  by (simp add: attach_def nth_append)

lemma attach_nth_self:
  "a < length h \<Longrightarrow>
   fst (attach a ds (h, q)) ! a =
     Node (data (h ! a)) (children (h ! a) @ [length h ..< length h + length ds])"
  by (simp add: attach_def nth_append)

lemma heap_inv_step:
  assumes inv: "heap_inv es k h" and k: "k < length h"
  shows "heap_inv es (Suc k) (fst (attach k (child_data es (data (h ! k))) (h, q)))"
proof -
  let ?ds = "child_data es (data (h ! k))"
  let ?h' = "fst (attach k ?ds (h, q))"
  have len: "length ?h' = length h + length ?ds" by (rule attach_length)
  have kc: "children (h ! k) = []" using heap_inv_pending[OF inv k] by simp
  have data_old: "\<And>x. x < length h \<Longrightarrow> data (?h' ! x) = data (h ! x)"
    by (rule attach_data_old)
  have new: "\<And>i. i < length ?ds \<Longrightarrow> ?h' ! (length h + i) = Node (?ds ! i) []"
    by (rule attach_data_new)
  have kch: "children (?h' ! k) = [length h ..< length h + length ?ds]"
    using k kc by (simp add: attach_nth_self)
  have other: "\<And>x. x < length h \<Longrightarrow> x \<noteq> k \<Longrightarrow> ?h' ! x = h ! x"
    by (rule attach_nth_other)
  have newnode: "\<exists>i < length ?ds. a = length h + i \<and> ?h' ! a = Node (?ds ! i) []"
    if "a < length ?h'" "\<not> a < length h" for a
  proof -
    from that len have "a - length h < length ?ds" "a = length h + (a - length h)" by simp_all
    then show ?thesis using new[of "a - length h"] by metis
  qed
  have newok: "node_ok es (data (?h' ! a))" if "a < length ?h'" "\<not> a < length h" for a
  proof -
    from newnode[OF that] obtain i where i: "i < length ?ds" "?h' ! a = Node (?ds ! i) []" by blast
    then have "?ds ! i \<in> set ?ds" by simp
    then have "node_ok es (?ds ! i)" by (rule child_data_node_ok)
    with i show ?thesis by simp
  qed
  show ?thesis
  proof (rule heap_invI)
    show "Suc k \<le> length ?h'" using k unfolding len by linarith
    show "0 < length ?h'" using k unfolding len by linarith
  next
    fix a assume a: "a < length ?h'"
    show "map_of es (elevator (data (?h' ! a))) \<noteq> None"
    proof (cases "a < length h")
      case True
      then show ?thesis using heap_inv_key[OF inv True] by (simp add: data_old)
    next
      case False
      from newok[OF a False] show ?thesis
        by (auto simp: node_ok_def split: option.splits)
    qed
  next
    fix a assume a: "a < length ?h'" and pos: "0 < a"
    show "node_ok es (data (?h' ! a))"
    proof (cases "a < length h")
      case True
      then show ?thesis using heap_inv_node_ok[OF inv True pos] by (simp add: data_old)
    next
      case False
      from newok[OF a False] show ?thesis .
    qed
  next
    fix a c assume a: "a < length ?h'" and c: "c \<in> set (children (?h' ! a))"
    show "a < c \<and> c < length ?h'"
    proof (cases "a < length h")
      case True
      show ?thesis
      proof (cases "a = k")
        case True
        with c kch k len show ?thesis by auto
      next
        case False
        with c other[OF True] have "c \<in> set (children (h ! a))" by simp
        from heap_inv_range[OF inv True this] len show ?thesis by simp
      qed
    next
      case False
      from newnode[OF a False] c show ?thesis by auto
    qed
  next
    fix a assume a: "a < length ?h'" and ak: "a < Suc k"
    then have al: "a < length h" using k by simp
    show "map (\<lambda>c. data (?h' ! c)) (children (?h' ! a)) = child_data es (data (?h' ! a))"
    proof (cases "a = k")
      case True
      have "map (\<lambda>c. data (?h' ! c)) [length h ..< length h + length ?ds] = ?ds"
        by (rule nth_equalityI) (simp_all add: new)
      then show ?thesis using True kch data_old[OF k] by simp
    next
      case False
      then have lt: "a < k" using ak by simp
      have same: "?h' ! a = h ! a" using other[OF al False] .
      have "map (\<lambda>c. data (?h' ! c)) (children (h ! a)) = map (\<lambda>c. data (h ! c)) (children (h ! a))"
      proof (rule map_cong[OF refl])
        fix c assume "c \<in> set (children (h ! a))"
        from heap_inv_range[OF inv al this] show "data (?h' ! c) = data (h ! c)"
          by (simp add: data_old)
      qed
      then show ?thesis using heap_inv_children[OF inv al lt] same by simp
    qed
    show "distinct (children (?h' ! a))"
    proof (cases "a = k")
      case True
      then show ?thesis using kch by simp
    next
      case False
      then have lt: "a < k" using ak by simp
      show ?thesis using heap_inv_distinct[OF inv al lt] other[OF al False] by simp
    qed
  next
    fix a assume a: "a < length ?h'" and ka: "Suc k \<le> a"
    show "children (?h' ! a) = []"
    proof (cases "a < length h")
      case True
      then have "?h' ! a = h ! a" using ka other by simp
      then show ?thesis using heap_inv_pending[OF inv True] ka by simp
    next
      case False
      from newnode[OF a False] show ?thesis by auto
    qed
  qed
qed

lemma buildLoop_inv:
  assumes "heap_inv es k h" and "q = [k ..< length h]"
  shows "\<exists>h'. buildLoop es h q = Inr h' \<and> heap_inv es (length h') h' \<and> data (h' ! 0) = data (h ! 0)"
  using assms
proof (induction es h q arbitrary: k rule: buildLoop.induct)
  case (1 es h)
  from 1(1) have "k \<le> length h" by (simp add: heap_inv_bounds)
  with 1(2)[symmetric] have "k = length h" by auto
  with 1(1) show ?case by simp
next
  case (2 es h a q)
  note e = 2(3)[symmetric]
  from e have k: "k < length h" by (cases "k < length h") simp_all
  with e have a: "a = k" and q: "q = [Suc k ..< length h]"
    by (auto simp add: upt_conv_Cons)
  let ?s = "attach k (child_data es (data (h ! k))) (h, q)"
  from heap_inv_key[OF 2(2) k] obtain row where row: "map_of es (elevator (data (h ! k))) = Some row"
    by blast
  have ex: "expand es a (h, q) = Inr ?s"
    unfolding a by (rule expand_attach[OF k row])
  have inv': "heap_inv es (Suc k) (fst ?s)" by (rule heap_inv_step[OF 2(2) k])
  have q': "snd ?s = [Suc k ..< length (fst ?s)]"
    unfolding attach_queue attach_length q using k
    by (simp add: upt_add_eq_append[symmetric])
  from "2.IH"[OF _ ex inv' q'] k a
  obtain h' where h': "buildLoop es (fst ?s) (snd ?s) = Inr h'" "heap_inv es (length h') h'"
      "data (h' ! 0) = data (fst ?s ! 0)"
    by auto
  have "0 < length h" using k by linarith
  then have "data (fst ?s ! 0) = data (h ! 0)" by (rule attach_data_old)
  with h' have "buildLoop es h (a # q) = Inr h' \<and> heap_inv es (length h') h' \<and> data (h' ! 0) = data (h ! 0)"
    using k a ex by simp
  then show ?case by blast
qed

lemma heap_inv_init:
  assumes "map_of es se = Some row"
  shows "heap_inv es 0 [Node (NodeData se (index row 0) 0) []]"
  by (rule heap_invI) (simp_all add: assms)

lemma build_ok:
  assumes "map_of es se = Some row"
  shows "\<exists>h. buildElevatorPathTree es se = Inr h \<and> heap_inv es (length h) h
             \<and> data (h ! 0) = NodeData se (index row 0) 0"
proof -
  have "[0 :: nat] = [0 ..< length [Node (NodeData se (index row 0) 0) []]]" by simp
  from buildLoop_inv[OF heap_inv_init[OF assms] this]
  show ?thesis by (simp add: buildElevatorPathTree_def assms)
qed

lemma build_Inr:
  assumes "buildElevatorPathTree es se = Inr h"
  shows "\<exists>row. map_of es se = Some row \<and> heap_inv es (length h) h
             \<and> data (h ! 0) = NodeData se (index row 0) 0"
proof (cases "map_of es se")
  case None
  with assms show ?thesis by (simp add: buildElevatorPathTree_def)
next
  case (Some row)
  from build_ok[OF Some] assms show ?thesis using Some by auto
qed

section \<open>The search loop as a depth-first search\<close>

text \<open>
  \<open>nodes\<close> lists the data of all nodes of a tree, \<open>matches\<close> is the test that ends
  the search, \<open>push\<close> is what one pass does to the path stack. \<open>dfs\<close> is the
  recursive depth-first search for the first matching node, returning the data of the
  nodes from the start node to the match. On a tree whose nodes carry their depth as
  time (\<open>timed\<close>), the loop with its shared path stack computes the same result
  (\<open>findFinalDestinationPath_dfs\<close>).
\<close>

fun nodes :: "tnode \<Rightarrow> node_data list" where
  "nodes (TNode d cs) = d # concat (map nodes cs)"

definition matches :: "number \<Rightarrow> number \<Rightarrow> node_data \<Rightarrow> bool" where
  "matches finalFloor finalTimeInterval d =
     (equals_number (time d) finalTimeInterval \<and> equals_floor (floor d) finalFloor)"

definition push :: "nat \<Rightarrow> tnode \<Rightarrow> string list \<Rightarrow> string list" where
  "push lvl n stk =
     (if lvl < time (tdata n) then stk @ [elevator (tdata n)]
      else pops (lvl - time (tdata n) + 1) stk @ [elevator (tdata n)])"

lemma searchLoop_Cons:
  "searchLoop F T (n # q) lvl stk =
     (if matches F T (tdata n) then Some (drop 1 (concat (push lvl n stk)))
      else searchLoop F T (if less_number (time (tdata n)) T then tchildren n @ q else q)
             (time (tdata n)) (push lvl n stk))"
  by (simp add: Let_def matches_def push_def)

declare searchLoop.simps(2) [simp del]

lemma nodes_self: "tdata n \<in> set (nodes n)"
  by (cases n) simp

lemma nodes_child: "c \<in> set (tchildren n) \<Longrightarrow> d \<in> set (nodes c) \<Longrightarrow> d \<in> set (nodes n)"
  by (cases n) auto

lemma searchLoop_induct [case_names Nil Cons]:
  assumes "\<And>lvl stk. P [] lvl stk"
    and "\<And>n q lvl stk.
           (\<not> matches F T (tdata n) \<Longrightarrow>
              P (if less_number (time (tdata n)) T then tchildren n @ q else q)
                (time (tdata n)) (push lvl n stk))
           \<Longrightarrow> P (n # q) lvl stk"
  shows "P q lvl stk"
proof (induction "sum_list (map size q)" arbitrary: q lvl stk rule: less_induct)
  case (less q lvl stk)
  show ?case
  proof (cases q)
    case Nil
    then show ?thesis by (simp add: assms(1))
  next
    case (Cons n q')
    let ?q = "if less_number (time (tdata n)) T then tchildren n @ q' else q'"
    have "sum_list (map size ?q) < sum_list (map size q)"
      using sum_size_children[of n] size_tnode_pos[of n] Cons by simp
    then have "P ?q (time (tdata n)) (push lvl n stk)" by (rule less)
    then have "P (n # q') lvl stk" by (intro assms(2))
    then show ?thesis unfolding Cons .
  qed
qed

lemma searchLoop_no_match:
  assumes "\<forall>n \<in> set q. \<forall>d \<in> set (nodes n). \<not> matches F T d"
  shows "searchLoop F T q lvl stk = None"
  using assms
proof (induction q lvl stk rule: searchLoop_induct[where F = F and T = T])
  case (Nil lvl stk)
  then show ?case by simp
next
  case (Cons n q lvl stk)
  have nm: "\<not> matches F T (tdata n)" using Cons.prems nodes_self[of n] by auto
  let ?q' = "if less_number (time (tdata n)) T then tchildren n @ q else q"
  have q': "\<forall>m \<in> set ?q'. \<forall>d \<in> set (nodes m). \<not> matches F T d"
    using Cons.prems nodes_child[of _ n] by auto
  have "searchLoop F T ?q' (time (tdata n)) (push lvl n stk) = None"
    using nm q' by (rule Cons.IH)
  then show ?case using nm by (simp only: searchLoop_Cons if_False)
qed

lemma pops_take: "pops n xs = take (length xs - n) xs"
proof (induction n arbitrary: xs)
  case 0
  then show ?case by simp
next
  case (Suc n)
  have "pops (Suc n) xs = take (length (butlast xs) - n) (butlast xs)"
    by (simp add: Suc)
  also have "\<dots> = take (length xs - Suc n) xs"
    by (simp add: butlast_conv_take min_def)
  finally show ?case .
qed

definition stack_ok :: "nat \<Rightarrow> nat \<Rightarrow> string list \<Rightarrow> bool" where
  "stack_ok d lvl stk = (d \<le> length stk \<and> (length stk = Suc lvl \<or> (stk = [] \<and> lvl = 0)))"

lemma push_take:
  assumes "stack_ok d lvl stk" and "time (tdata n) = d"
  shows "push lvl n stk = take d stk @ [elevator (tdata n)]"
proof (cases "lvl < d")
  case True
  with assms(1) have "length stk = d" by (auto simp: stack_ok_def)
  with True assms(2) show ?thesis by (simp add: push_def)
next
  case False
  with assms(1) have "length stk - (lvl - d + 1) = d \<or> stk = []"
    by (auto simp: stack_ok_def)
  with False assms(2) show ?thesis by (auto simp add: push_def pops_take)
qed

lemma stack_ok_push:
  "stack_ok d lvl stk \<Longrightarrow> stack_ok (Suc d) d (take d stk @ [e])"
  "stack_ok d lvl stk \<Longrightarrow> stack_ok d d (take d stk @ [e])"
  by (auto simp: stack_ok_def)

fun timed :: "nat \<Rightarrow> tnode \<Rightarrow> bool" where
  "timed d (TNode x cs) = (time x = d \<and> (\<forall>c \<in> set cs. timed (Suc d) c))"

fun dfs :: "number \<Rightarrow> number \<Rightarrow> tnode \<Rightarrow> node_data list option"
  and dfs_list :: "number \<Rightarrow> number \<Rightarrow> tnode list \<Rightarrow> node_data list option" where
  "dfs F T (TNode x cs) =
     (if matches F T x then Some [x]
      else if less_number (time x) T then map_option ((#) x) (dfs_list F T cs)
      else None)"
| "dfs_list F T [] = None"
| "dfs_list F T (c # cs) =
     (case dfs F T c of Some p \<Rightarrow> Some p | None \<Rightarrow> dfs_list F T cs)"

definition resumes ::
  "number \<Rightarrow> number \<Rightarrow> tnode list \<Rightarrow> nat \<Rightarrow> string list \<Rightarrow> string option \<Rightarrow> bool" where
  "resumes F T q d stk r =
     (\<exists>lvl' stk'. r = searchLoop F T q lvl' stk' \<and> stack_ok d lvl' stk' \<and> take d stk' = take d stk)"

definition found :: "nat \<Rightarrow> string list \<Rightarrow> node_data list \<Rightarrow> string option" where
  "found d stk p = Some (drop 1 (concat (take d stk @ map elevator p)))"

lemma resumes_weaken:
  assumes "resumes F T q (Suc d) stk1 r" and "take d stk1 = take d stk"
  shows "resumes F T q d stk r"
proof -
  from assms(1) obtain lvl' stk' where r: "r = searchLoop F T q lvl' stk'"
    and ok: "stack_ok (Suc d) lvl' stk'" and tk: "take (Suc d) stk' = take (Suc d) stk1"
    unfolding resumes_def by blast
  have "take d stk' = take d (take (Suc d) stk')" by simp
  also have "\<dots> = take d stk" unfolding tk using assms(2) by simp
  finally have "take d stk' = take d stk" .
  moreover have "stack_ok d lvl' stk'" using ok by (auto simp: stack_ok_def)
  ultimately show ?thesis using r unfolding resumes_def by blast
qed

lemma search_forest:
  assumes nodes: "\<And>c q lvl stk. c \<in> set cs \<Longrightarrow> stack_ok d lvl stk \<Longrightarrow>
            (case dfs F T c of
               Some p \<Rightarrow> searchLoop F T (c # q) lvl stk = found d stk p
             | None \<Rightarrow> resumes F T q d stk (searchLoop F T (c # q) lvl stk))"
    and ok: "stack_ok d lvl stk"
  shows "case dfs_list F T cs of
           Some p \<Rightarrow> searchLoop F T (cs @ q) lvl stk = found d stk p
         | None \<Rightarrow> resumes F T q d stk (searchLoop F T (cs @ q) lvl stk)"
  using nodes ok
proof (induction cs arbitrary: lvl stk)
  case Nil
  then show ?case unfolding resumes_def by auto
next
  case (Cons c cs)
  have c: "case dfs F T c of
               Some p \<Rightarrow> searchLoop F T (c # cs @ q) lvl stk = found d stk p
             | None \<Rightarrow> resumes F T (cs @ q) d stk (searchLoop F T (c # cs @ q) lvl stk)"
    by (rule Cons.prems(1)[OF _ Cons.prems(2)]) simp
  show ?case
  proof (cases "dfs F T c")
    case (Some p)
    with c show ?thesis by simp
  next
    case None
    with c obtain lvl' stk' where r: "searchLoop F T (c # cs @ q) lvl stk = searchLoop F T (cs @ q) lvl' stk'"
      and ok': "stack_ok d lvl' stk'" and tk: "take d stk' = take d stk"
      unfolding resumes_def by auto
    have IH: "case dfs_list F T cs of
           Some p \<Rightarrow> searchLoop F T (cs @ q) lvl' stk' = found d stk' p
         | None \<Rightarrow> resumes F T q d stk' (searchLoop F T (cs @ q) lvl' stk')"
      by (rule Cons.IH[OF _ ok']) (rule Cons.prems(1), simp_all)
    show ?thesis
    proof (cases "dfs_list F T cs")
      case n: None
      with IH have "resumes F T q d stk' (searchLoop F T (cs @ q) lvl' stk')" by simp
      then have "resumes F T q d stk (searchLoop F T (cs @ q) lvl' stk')"
        unfolding resumes_def tk .
      with None n r show ?thesis by simp
    next
      case s: (Some p)
      with IH have "searchLoop F T (cs @ q) lvl' stk' = found d stk' p" by simp
      also have "\<dots> = found d stk p" unfolding found_def tk ..
      finally show ?thesis using None s r by simp
    qed
  qed
qed

lemma search_node:
  assumes "timed d n" and "stack_ok d lvl stk"
  shows "case dfs F T n of
           Some p \<Rightarrow> searchLoop F T (n # q) lvl stk = found d stk p
         | None \<Rightarrow> resumes F T q d stk (searchLoop F T (n # q) lvl stk)"
  using assms
proof (induction n arbitrary: d q lvl stk)
  case (TNode x cs)
  from TNode.prems(1) have tx: "time x = d" and tcs: "\<And>c. c \<in> set cs \<Longrightarrow> timed (Suc d) c"
    by simp_all
  let ?stk1 = "take d stk @ [elevator x]"
  have pu: "push lvl (TNode x cs) stk = ?stk1"
    using push_take[OF TNode.prems(2), of "TNode x cs"] tx by simp
  have tk1: "take d ?stk1 = take d stk" using TNode.prems(2) by (simp add: stack_ok_def)
  show ?case
  proof (cases "matches F T x")
    case True
    then show ?thesis by (simp add: searchLoop_Cons pu found_def)
  next
    case nm: False
    show ?thesis
    proof (cases "less_number (time x) T")
      case True
      have step: "searchLoop F T (TNode x cs # q) lvl stk = searchLoop F T (cs @ q) d ?stk1"
        using nm True tx by (simp add: searchLoop_Cons pu)
      have ok1: "stack_ok (Suc d) d ?stk1" using TNode.prems(2) by (rule stack_ok_push)
      have forest: "case dfs_list F T cs of
           Some p \<Rightarrow> searchLoop F T (cs @ q) d ?stk1 = found (Suc d) ?stk1 p
         | None \<Rightarrow> resumes F T q (Suc d) ?stk1 (searchLoop F T (cs @ q) d ?stk1)"
      proof (rule search_forest[OF _ ok1])
        fix c q' lvl' stk'
        assume "c \<in> set cs" and "stack_ok (Suc d) lvl' stk'"
        then show "case dfs F T c of
               Some p \<Rightarrow> searchLoop F T (c # q') lvl' stk' = found (Suc d) stk' p
             | None \<Rightarrow> resumes F T q' (Suc d) stk' (searchLoop F T (c # q') lvl' stk')"
          using TNode.IH[of c "Suc d" lvl' stk' q'] tcs by simp
      qed
      have f1: "found (Suc d) ?stk1 p = found d stk (x # p)" for p
        using TNode.prems(2) by (simp add: found_def stack_ok_def)
      show ?thesis
      proof (cases "dfs_list F T cs")
        case None
        with forest have "resumes F T q (Suc d) ?stk1 (searchLoop F T (cs @ q) d ?stk1)" by simp
        then have "resumes F T q d stk (searchLoop F T (cs @ q) d ?stk1)"
          using tk1 by (rule resumes_weaken)
        with None nm True step show ?thesis by simp
      next
        case (Some p)
        with forest have "searchLoop F T (cs @ q) d ?stk1 = found d stk (x # p)"
          by (simp add: f1)
        with Some nm True step show ?thesis by simp
      qed
    next
      case False
      have step: "searchLoop F T (TNode x cs # q) lvl stk = searchLoop F T q d ?stk1"
        using nm False tx by (simp add: searchLoop_Cons pu)
      have "stack_ok d d ?stk1" using TNode.prems(2) by (rule stack_ok_push)
      with tk1 have "resumes F T q d stk (searchLoop F T q d ?stk1)"
        unfolding resumes_def by blast
      with nm False step show ?thesis by simp
    qed
  qed
qed

lemma findFinalDestinationPath_dfs:
  assumes "timed 0 root"
  shows "findFinalDestinationPath root F T =
           map_option (\<lambda>p. drop 1 (concat (map elevator p))) (dfs F T root)"
proof -
  have ok: "stack_ok 0 0 []" by (simp add: stack_ok_def)
  note n = search_node[OF assms ok, of F T "[]"]
  show ?thesis
  proof (cases "dfs F T root")
    case None
    with n obtain lvl' stk' where "searchLoop F T [root] 0 [] = searchLoop F T [] lvl' stk'"
      unfolding resumes_def by auto
    with None show ?thesis by (simp add: findFinalDestinationPath_def)
  next
    case (Some p)
    with n show ?thesis by (simp add: findFinalDestinationPath_def found_def)
  qed
qed

section \<open>Facts about the children of a node\<close>

lemma node_ok_time_le:
  assumes "node_ok es d" and "map_of es (elevator d) = Some row"
  shows "time d \<le> length row"
proof -
  from assms have "truthy (index row (time d - 1))" and "0 < time d"
    by (auto simp add: node_ok_def)
  from truthy_index[OF this(1)] this(2) show ?thesis by simp
qed

lemma child_data_distinct:
  assumes "distinct (map fst es)"
  shows "distinct (map elevator (child_data es d))"
proof (cases "map_of es (elevator d)")
  case None
  then show ?thesis by (simp add: child_data_def)
next
  case (Some row)
  let ?P = "transfer_ok es (elevator d) (time d) (index row (time d))"
  have m: "map elevator (map (\<lambda>k. NodeData k (index row (time d)) (time d + 1)) (filter ?P (map fst es)))
          = filter ?P (map fst es)"
    by (simp add: comp_def)
  have d: "distinct (filter ?P (map fst es))" using assms by (rule distinct_filter)
  have n: "elevator d \<notin> set (filter ?P (map fst es))"
    by (auto simp: transfer_ok_def split: option.splits)
  show ?thesis
    unfolding child_data_alt[OF Some] map_append m using d n by simp
qed

lemma child_data_falsy:
  assumes "map_of es (elevator d) = Some row" and "\<not> truthy (index row (time d))"
  shows "child_data es d = []"
proof -
  have "filter (transfer_ok es (elevator d) (time d) (index row (time d))) (map fst es) = []"
    using assms(2) by (auto simp: filter_empty_conv transfer_ok_def split: option.splits)
  with assms show ?thesis by (simp add: child_data_alt[OF assms(1)])
qed

lemma truthy_positive:
  assumes "\<forall>f \<in> set row. 0 < f"
  shows "truthy (index row t) = (t < length row)"
proof (cases "t < length row")
  case True
  then have "row ! t \<in> set row" by simp
  with assms have "0 < row ! t" by blast
  with True show ?thesis by (simp add: truthy_def index_def)
next
  case False
  then show ?thesis by (simp add: truthy_def index_def)
qed

section \<open>The tree read out of the built store\<close>

text \<open>
  \<open>generated\<close>: every node of the tree has exactly the children that the loop body
  creates for its data. The tree read out of a store left by the builder is generated,
  carries its depth as time, and has only data of stored nodes.
\<close>

fun generated :: "elevator_states \<Rightarrow> tnode \<Rightarrow> bool" where
  "generated es (TNode x cs) = (map tdata cs = child_data es x \<and> (\<forall>c \<in> set cs. generated es c))"

lemma tree_of_built:
  assumes inv: "heap_inv es (length h) h" and a: "a < length h"
  shows "tree_of h a = TNode (data (h ! a)) (map (tree_of h) (children (h ! a)))"
proof -
  have "filter (\<lambda>c. a < c \<and> c < length h) (children (h ! a)) = children (h ! a)"
    using heap_inv_range[OF inv a] by (simp add: filter_id_conv)
  then show ?thesis by (simp add: tree_of.simps[of h a])
qed

lemma tree_of_data:
  assumes "heap_inv es (length h) h" and "a < length h"
  shows "tdata (tree_of h a) = data (h ! a)"
  by (simp add: tree_of_built[OF assms])

lemma tree_of_children_data:
  assumes inv: "heap_inv es (length h) h" and a: "a < length h"
  shows "map tdata (map (tree_of h) (children (h ! a))) = child_data es (data (h ! a))"
proof -
  have "map tdata (map (tree_of h) (children (h ! a))) = map (\<lambda>c. data (h ! c)) (children (h ! a))"
    unfolding map_map
  proof (rule map_cong[OF refl])
    fix c assume "c \<in> set (children (h ! a))"
    from heap_inv_range[OF inv a this] have "c < length h" by simp
    from tree_of_data[OF inv this] show "(tdata \<circ> tree_of h) c = data (h ! c)" by simp
  qed
  then show ?thesis using heap_inv_children[OF inv a a] by simp
qed

lemma tree_of_generated:
  "heap_inv es (length h) h \<Longrightarrow> a < length h \<Longrightarrow> generated es (tree_of h a)"
proof (induction h a rule: tree_of.induct)
  case (1 h a)
  note inv = "1.prems"(1) and a = "1.prems"(2)
  have sub: "generated es (tree_of h c)" if "c \<in> set (children (h ! a))" for c
  proof -
    from heap_inv_range[OF inv a that] have r: "a < c \<and> c < length h" .
    with that have "c \<in> set (filter (\<lambda>c. a < c \<and> c < length h) (children (h ! a)))" by simp
    from "1.IH"[OF this inv] r show ?thesis by simp
  qed
  show ?case
    unfolding tree_of_built[OF inv a] generated.simps
    using tree_of_children_data[OF inv a] sub by simp
qed

lemma tree_of_timed:
  "heap_inv es (length h) h \<Longrightarrow> a < length h \<Longrightarrow> timed (time (data (h ! a))) (tree_of h a)"
proof (induction h a rule: tree_of.induct)
  case (1 h a)
  note inv = "1.prems"(1) and a = "1.prems"(2)
  have sub: "timed (Suc (time (data (h ! a)))) (tree_of h c)" if "c \<in> set (children (h ! a))" for c
  proof -
    from heap_inv_range[OF inv a that] have r: "a < c \<and> c < length h" .
    with that have m: "c \<in> set (filter (\<lambda>c. a < c \<and> c < length h) (children (h ! a)))" by simp
    from that have "data (h ! c) \<in> set (map (\<lambda>c. data (h ! c)) (children (h ! a)))" by simp
    then have "data (h ! c) \<in> set (child_data es (data (h ! a)))"
      unfolding heap_inv_children[OF inv a a] .
    then have "time (data (h ! c)) = Suc (time (data (h ! a)))"
      using child_data_time by simp
    with "1.IH"[OF m inv] r show ?thesis by simp
  qed
  show ?case
    unfolding tree_of_built[OF inv a] timed.simps
    using sub by simp
qed

lemma tree_of_nodes:
  "heap_inv es (length h) h \<Longrightarrow> a < length h \<Longrightarrow> d \<in> set (nodes (tree_of h a))
   \<Longrightarrow> \<exists>b < length h. d = data (h ! b)"
proof (induction h a rule: tree_of.induct)
  case (1 h a)
  note inv = "1.prems"(1) and a = "1.prems"(2)
  from "1.prems"(3) have "d = data (h ! a) \<or> (\<exists>c \<in> set (children (h ! a)). d \<in> set (nodes (tree_of h c)))"
    unfolding tree_of_built[OF inv a] by auto
  then show ?case
  proof
    assume "d = data (h ! a)"
    with a show ?thesis by blast
  next
    assume "\<exists>c \<in> set (children (h ! a)). d \<in> set (nodes (tree_of h c))"
    then obtain c where c: "c \<in> set (children (h ! a))" "d \<in> set (nodes (tree_of h c))" by blast
    from heap_inv_range[OF inv a c(1)] have r: "a < c \<and> c < length h" .
    with c have m: "c \<in> set (filter (\<lambda>c. a < c \<and> c < length h) (children (h ! a)))" by simp
    from "1.IH"[OF m inv _ c(2)] r show ?thesis by simp
  qed
qed

lemma built_time_le_horizon:
  assumes b: "buildElevatorPathTree es se = Inr h" and d: "d \<in> set (nodes (tree_of h 0))"
  shows "time d \<le> horizon es"
proof -
  from build_Inr[OF b] obtain row where row: "map_of es se = Some row"
    and inv: "heap_inv es (length h) h" and r0: "data (h ! 0) = NodeData se (index row 0) 0"
    by blast
  have l: "0 < length h" using heap_inv_bounds[OF inv] by simp
  from tree_of_nodes[OF inv l d] obtain a where a: "a < length h" "d = data (h ! a)" by blast
  show ?thesis
  proof (cases "a = 0")
    case True
    with a r0 show ?thesis by simp
  next
    case False
    then have pos: "0 < a" by simp
    have ok: "node_ok es (data (h ! a))" by (rule heap_inv_node_ok[OF inv a(1) pos])
    then obtain row' where row': "map_of es (elevator (data (h ! a))) = Some row'"
      by (auto simp: node_ok_def split: option.splits)
    from node_ok_time_le[OF ok row'] horizon_ge[OF row'] a(2) show ?thesis by simp
  qed
qed

section \<open>The path that the search returns\<close>

text \<open>
  \<open>is_path n p\<close>: \<open>p\<close> is the data of the nodes on a path that starts at \<open>n\<close> and
  goes from a node to one of its children at every step. \<open>linked es p\<close>: every
  element of \<open>p\<close> after the first is among the children that the loop body creates
  for its predecessor.
\<close>

fun is_path :: "tnode \<Rightarrow> node_data list \<Rightarrow> bool" where
  "is_path n [] = False"
| "is_path n (x # xs) = (x = tdata n \<and> (xs = [] \<or> (\<exists>c \<in> set (tchildren n). is_path c xs)))"

fun linked :: "elevator_states \<Rightarrow> node_data list \<Rightarrow> bool" where
  "linked es (d # d' # ds) = (d' \<in> set (child_data es d) \<and> linked es (d' # ds))"
| "linked es ds = True"

lemma dfs_path:
  "dfs F T n = Some p \<Longrightarrow> is_path n p \<and> matches F T (last p)"
  "dfs_list F T cs = Some p \<Longrightarrow> \<exists>c \<in> set cs. dfs F T c = Some p \<and> is_path c p \<and> matches F T (last p)"
proof (induction F T n and F T cs arbitrary: p and p rule: dfs_dfs_list.induct)
  case (1 F T x cs)
  show ?case
  proof (cases "matches F T x")
    case True
    with "1.prems" show ?thesis by auto
  next
    case False
    with "1.prems" have l: "less_number (time x) T" by (simp split: if_splits)
    with False "1.prems" obtain p' where p': "dfs_list F T cs = Some p'" "p = x # p'"
      by auto
    from "1.IH"[OF False l p'(1)] obtain c where c: "c \<in> set cs" "is_path c p'" "matches F T (last p')"
      by blast
    from c(2) have "p' \<noteq> []" by (cases p') simp_all
    with c p'(2) show ?thesis by auto
  qed
next
  case (2 F T)
  then show ?case by simp
next
  case (3 F T c cs)
  show ?case
  proof (cases "dfs F T c")
    case None
    with "3.prems" have "dfs_list F T cs = Some p" by simp
    from "3.IH"(2)[OF None this] show ?thesis by auto
  next
    case (Some p')
    with "3.prems" have "p' = p" by simp
    with Some "3.IH"(1)[of p] show ?thesis by simp
  qed
qed

lemma is_path_hd: "is_path n p \<Longrightarrow> p \<noteq> [] \<and> hd p = tdata n"
  by (cases p) simp_all

lemma is_path_nodes: "is_path n p \<Longrightarrow> set p \<subseteq> set (nodes n)"
proof (induction p arbitrary: n)
  case Nil
  then show ?case by simp
next
  case (Cons x xs)
  show ?case
  proof (cases "xs = []")
    case True
    with Cons.prems show ?thesis using nodes_self[of n] by simp
  next
    case False
    with Cons.prems obtain c where c: "c \<in> set (tchildren n)" "is_path c xs" and x: "x = tdata n" by auto
    from Cons.IH[OF c(2)] have "set xs \<subseteq> set (nodes n)"
      using nodes_child[OF c(1)] by blast
    with x nodes_self[of n] show ?thesis by simp
  qed
qed

lemma is_path_length:
  "timed d n \<Longrightarrow> is_path n p \<Longrightarrow> d + length p = Suc (time (last p))"
proof (induction p arbitrary: n d)
  case Nil
  then show ?case by simp
next
  case (Cons x xs)
  obtain y cs where n: "n = TNode y cs" by (cases n)
  show ?case
  proof (cases "xs = []")
    case True
    with Cons.prems n show ?thesis by simp
  next
    case False
    with Cons.prems n obtain c where c: "c \<in> set cs" "is_path c xs" by auto
    with Cons.prems(1) n have "timed (Suc d) c" by simp
    from Cons.IH[OF this c(2)] False show ?thesis by simp
  qed
qed

lemma is_path_linked:
  "generated es n \<Longrightarrow> is_path n p \<Longrightarrow> linked es p"
proof (induction p arbitrary: n)
  case Nil
  then show ?case by simp
next
  case (Cons x xs)
  obtain y cs where n: "n = TNode y cs" by (cases n)
  show ?case
  proof (cases xs)
    case Nil
    then show ?thesis by simp
  next
    case (Cons x' xs')
    with Cons.prems n obtain c where c: "c \<in> set cs" "is_path c xs" and x: "x = y" by auto
    from Cons.prems(1) n c(1) have g: "generated es c" and m: "map tdata cs = child_data es y" by simp_all
    from c(2) Cons have "x' = tdata c" by simp
    with c(1) have "x' \<in> set (map tdata cs)" by simp
    with m have "x' \<in> set (child_data es x)" using x by simp
    with Cons.IH[OF g c(2)] Cons show ?thesis by simp
  qed
qed

lemma built_search:
  assumes b: "buildElevatorPathTree es se = Inr h"
    and f: "findFinalDestinationPath (tree_of h 0) F T = Some s"
  shows "\<exists>p row. map_of es se = Some row \<and> dfs F T (tree_of h 0) = Some p
           \<and> is_path (tree_of h 0) p \<and> matches F T (last p)
           \<and> p \<noteq> [] \<and> hd p = NodeData se (index row 0) 0
           \<and> linked es p \<and> length p = Suc (time (last p))
           \<and> s = drop 1 (concat (map elevator p))
           \<and> (\<forall>d \<in> set p. map_of es (elevator d) \<noteq> None)"
proof -
  from build_Inr[OF b] obtain row where row: "map_of es se = Some row"
    and inv: "heap_inv es (length h) h" and r0: "data (h ! 0) = NodeData se (index row 0) 0"
    by blast
  have l: "0 < length h" using heap_inv_bounds[OF inv] by simp
  have t: "timed 0 (tree_of h 0)" using tree_of_timed[OF inv l] r0 by simp
  have g: "generated es (tree_of h 0)" by (rule tree_of_generated[OF inv l])
  from f obtain p where p: "dfs F T (tree_of h 0) = Some p" and sp: "s = drop 1 (concat (map elevator p))"
    unfolding findFinalDestinationPath_dfs[OF t] by auto
  from dfs_path(1)[OF p] have ip: "is_path (tree_of h 0) p" and m: "matches F T (last p)" by simp_all
  from is_path_hd[OF ip] have ne: "p \<noteq> []" and hd: "hd p = NodeData se (index row 0) 0"
    using tree_of_data[OF inv l] r0 by simp_all
  have keys: "\<forall>d \<in> set p. map_of es (elevator d) \<noteq> None"
  proof
    fix d assume "d \<in> set p"
    with is_path_nodes[OF ip] have "d \<in> set (nodes (tree_of h 0))" by blast
    from tree_of_nodes[OF inv l this] obtain a where "a < length h" "d = data (h ! a)" by blast
    with heap_inv_key[OF inv] show "map_of es (elevator d) \<noteq> None" by simp
  qed
  from is_path_length[OF t ip] have len: "length p = Suc (time (last p))" by simp
  from row p ip m ne hd is_path_linked[OF g ip] len sp keys show ?thesis by blast
qed

lemma concat_singletons:
  "\<forall>x \<in> set xs. length x = 1 \<Longrightarrow> map (\<lambda>c. [c]) (concat xs) = xs"
proof (induction xs)
  case Nil
  then show ?case by simp
next
  case (Cons x xs)
  then obtain c where "x = [c]" by (cases x) auto
  with Cons show ?case by simp
qed

lemma singletons_length: "map (\<lambda>c. [c]) s = xs \<Longrightarrow> \<forall>x \<in> set xs. length x = 1"
  by auto

section \<open>Riding along a path, in the words of the specification\<close>

text \<open>
  The specification asks that simulating a returned path against the schedule, starting
  at the starting elevator and following each transfer, ends on the target floor, and
  that every adjacent pair of elevators is either identical (stay) or co-located at the
  floor at the step of transfer. \<open>simulate\<close> does this, in the time convention of the
  program and its tests: the step from time \<open>i\<close> to time \<open>i + 1\<close> reads entry
  \<open>i\<close> of the arrays. \<open>entry\<close> is the floor of an elevator in that entry,
  \<open>co_located\<close> says that two elevators have the same defined floor there.
  \<open>simulate es e fl i path\<close> starts on elevator \<open>e\<close> at floor \<open>fl\<close> and time
  \<open>i\<close>; it is \<open>None\<close> as soon as a step is neither a stay nor a transfer between
  co-located elevators, and else the floor occupied after the last step.
\<close>

text \<open>The returned string read as a path: one entry per character.\<close>

definition entries :: "string \<Rightarrow> string list" where
  "entries s = map (\<lambda>c. [c]) s"

definition entry :: "elevator_states \<Rightarrow> string \<Rightarrow> nat \<Rightarrow> int option" where
  "entry es e i = (case map_of es e of None \<Rightarrow> None | Some row \<Rightarrow> index row i)"

definition co_located :: "elevator_states \<Rightarrow> string \<Rightarrow> string \<Rightarrow> nat \<Rightarrow> bool" where
  "co_located es e e' i =
     (case entry es e i of None \<Rightarrow> False | Some a \<Rightarrow> entry es e' i = Some a)"

fun simulate :: "elevator_states \<Rightarrow> string \<Rightarrow> int option \<Rightarrow> nat \<Rightarrow> string list \<Rightarrow> int option" where
  "simulate es e fl i [] = fl"
| "simulate es e fl i (e' # rest) =
     (if e' = e \<or> co_located es e e' i
      then simulate es e' (entry es e' i) (Suc i) rest
      else None)"

text \<open>What the program's trees have to do with it, and which child a search finds.\<close>

lemma child_step:
  assumes "c \<in> set (child_data es d)"
  shows "(elevator c = elevator d \<or> co_located es (elevator d) (elevator c) (time d))
         \<and> floor c = entry es (elevator c) (time d) \<and> time c = Suc (time d)"
proof (cases "map_of es (elevator d)")
  case None
  with assms show ?thesis by (simp add: child_data_def)
next
  case (Some row)
  let ?nf = "index row (time d)"
  from assms have "c \<in> set (if truthy ?nf then [NodeData (elevator d) ?nf (time d + 1)] else [])
      \<or> c \<in> (\<lambda>k. NodeData k ?nf (time d + 1)) ` set (filter (transfer_ok es (elevator d) (time d) ?nf) (map fst es))"
    unfolding child_data_alt[OF Some] set_append set_map by blast
  then show ?thesis
  proof
    assume "c \<in> set (if truthy ?nf then [NodeData (elevator d) ?nf (time d + 1)] else [])"
    then have "c = NodeData (elevator d) ?nf (time d + 1)"
      by (simp split: if_splits)
    then show ?thesis using Some by (simp add: entry_def)
  next
    assume "c \<in> (\<lambda>k. NodeData k ?nf (time d + 1)) ` set (filter (transfer_ok es (elevator d) (time d) ?nf) (map fst es))"
    then obtain k where k: "transfer_ok es (elevator d) (time d) ?nf k" "c = NodeData k ?nf (time d + 1)"
      by auto
    from k(1) obtain row' where r: "map_of es k = Some row'" "truthy (index row' (time d))" "?nf = index row' (time d)"
      by (cases "map_of es k") (simp_all add: transfer_ok_def)
    from r(2) obtain a where a: "index row' (time d) = Some a" by (cases "index row' (time d)") (simp_all add: truthy_def)
    have "co_located es (elevator d) k (time d)"
      using Some r(1) r(3) a by (simp add: co_located_def entry_def)
    then show ?thesis using k(2) r(1) r(3) by (simp add: entry_def)
  qed
qed

lemma simulate_linked:
  "linked es (d # ds) \<Longrightarrow>
   simulate es (elevator d) (floor d) (time d) (map elevator ds) = floor (last (d # ds))"
proof (induction ds arbitrary: d)
  case Nil
  then show ?case by simp
next
  case (Cons c ds)
  from Cons.prems have c: "c \<in> set (child_data es d)" and l: "linked es (c # ds)" by simp_all
  note st = child_step[OF c]
  have "simulate es (elevator d) (floor d) (time d) (map elevator (c # ds))
        = simulate es (elevator c) (floor c) (time c) (map elevator ds)"
    using st by auto
  also have "\<dots> = floor (last (c # ds))" by (rule Cons.IH[OF l])
  finally show ?case by simp
qed

lemma child_data_same:
  assumes "c \<in> set (child_data es d)" and "c' \<in> set (child_data es d)"
  shows "floor c = floor c' \<and> time c = time c'"
proof (cases "map_of es (elevator d)")
  case None
  with assms show ?thesis by (simp add: child_data_def)
next
  case (Some row)
  have "floor x = index row (time d) \<and> time x = time d + 1" if "x \<in> set (child_data es d)" for x
    using that unfolding child_data_alt[OF Some] by (auto split: if_splits)
  with assms show ?thesis by simp
qed

lemma child_data_hd:
  assumes "child_data es d \<noteq> []"
  shows "elevator (hd (child_data es d)) = elevator d"
proof (cases "map_of es (elevator d)")
  case None
  with assms show ?thesis by (simp add: child_data_def)
next
  case (Some row)
  have "truthy (index row (time d))"
  proof (rule ccontr)
    assume "\<not> truthy (index row (time d))"
    from child_data_falsy[OF Some this] assms show False by simp
  qed
  then show ?thesis by (simp add: child_data_alt[OF Some])
qed

lemma dfs_match: "matches F T (tdata c) \<Longrightarrow> dfs F T c = Some [tdata c]"
  by (cases c) simp

lemma dfs_list_first:
  assumes m: "map tdata cs = child_data es x" and d: "dfs_list F T cs = Some [y]"
  shows "elevator y = elevator x"
proof -
  from dfs_path(2)[OF d] obtain c where c: "c \<in> set cs" "is_path c [y]" "matches F T y" by auto
  from c(2) have y: "y = tdata c" by simp
  from c(1) obtain c0 rest where cs: "cs = c0 # rest" by (cases cs) auto
  have "tdata c0 \<in> set (child_data es x)" "y \<in> set (child_data es x)"
    using m[symmetric] cs c(1) y by auto
  from child_data_same[OF this] c(3) have "matches F T (tdata c0)"
    by (simp add: matches_def)
  from dfs_match[OF this] d cs have "y = tdata c0" by simp
  then have "y = hd (child_data es x)" using m[symmetric] cs by simp
  moreover have "child_data es x \<noteq> []" using m[symmetric] cs by simp
  ultimately show ?thesis using child_data_hd by simp
qed

lemma dfs_last_two:
  "dfs F T n = Some p \<Longrightarrow> generated es n \<Longrightarrow> 2 \<le> length p
     \<Longrightarrow> elevator (last p) = elevator (last (butlast p))"
  "dfs_list F T cs = Some p \<Longrightarrow> \<forall>c \<in> set cs. generated es c \<Longrightarrow> 2 \<le> length p
     \<Longrightarrow> elevator (last p) = elevator (last (butlast p))"
proof (induction F T n and F T cs arbitrary: p and p rule: dfs_dfs_list.induct)
  case (1 F T x cs)
  from "1.prems"(1,3) have nm: "\<not> matches F T x" by (auto split: if_splits)
  with "1.prems"(1) have l: "less_number (time x) T" by (simp split: if_splits)
  with nm "1.prems"(1) obtain p' where p': "dfs_list F T cs = Some p'" "p = x # p'" by auto
  from "1.prems"(2) have g: "\<forall>c \<in> set cs. generated es c" and m: "map tdata cs = child_data es x"
    by simp_all
  from dfs_path(2)[OF p'(1)] have ne: "p' \<noteq> []" by (auto dest: is_path_hd)
  show ?case
  proof (cases "2 \<le> length p'")
    case True
    from "1.IH"[OF nm l p'(1) g True] have "elevator (last p') = elevator (last (butlast p'))" .
    moreover from True have "butlast p' \<noteq> []" by (cases p' rule: rev_cases) auto
    ultimately show ?thesis using p'(2) ne by simp
  next
    case False
    with ne obtain y where y: "p' = [y]" by (cases p') (auto simp: Suc_le_eq)
    from dfs_list_first[OF m p'(1)[unfolded y]] show ?thesis using p'(2) y by simp
  qed
next
  case (2 F T)
  then show ?case by simp
next
  case (3 F T c cs)
  show ?case
  proof (cases "dfs F T c")
    case None
    with "3.prems" have "dfs_list F T cs = Some p" by simp
    from "3.IH"(2)[OF None this _ "3.prems"(3)] "3.prems"(2) show ?thesis by simp
  next
    case (Some p')
    with "3.prems" have "p' = p" by simp
    with Some "3.IH"(1)[of p] "3.prems" show ?thesis by simp
  qed
qed

lemma findElevatorPath_built:
  assumes "buildElevatorPathTree es se = Inr h"
  shows "findElevatorPath es se fd =
           Inr (case findFinalDestinationPath (tree_of h 0)
                       (parseInt (index (split CHR ''-'' fd) 0))
                       (parseInt (index (split CHR ''-'' fd) 1)) of
                  None \<Rightarrow> noSolution
                | Some p \<Rightarrow> if p = [] then noSolution else p)"
  using assms by (simp add: findElevatorPath_def Let_def)

lemma findElevatorPath_Inr:
  assumes "findElevatorPath es se fd = Inr s"
  shows "\<exists>h. buildElevatorPathTree es se = Inr h"
  using assms by (cases "buildElevatorPathTree es se") (simp_all add: findElevatorPath_def)

lemma matches_Num:
  assumes "matches F T d"
  shows "\<exists>f. F = Num f \<and> floor d = Some f \<and> T = Num (int (time d))"
  using assms
  by (cases F; cases T; cases "floor d")
     (simp_all add: matches_def equals_number_def equals_floor_def)

lemma no_square_suffix:
  assumes "w \<noteq> []"
  shows "u @ w @ w \<noteq> ''There is no solution''"
proof
  assume eq: "u @ w @ w = ''There is no solution''"
  let ?S = "''There is no solution''"
  let ?n = "length w"
  from eq have "length (u @ w @ w) = length ?S" by simp
  then have len: "length u + 2 * ?n = 20" by simp
  have d1: "drop (length u + ?n) ?S = w" unfolding eq[symmetric] by simp
  have d2: "take ?n (drop (length u) ?S) = w" unfolding eq[symmetric] by simp
  have e: "take ?n (drop (length u) ?S) = drop (length u + ?n) ?S" using d1 d2 by simp
  from assms have "1 \<le> ?n" by (cases w) simp_all
  with len have "?n = 1 \<or> ?n = 2 \<or> ?n = 3 \<or> ?n = 4 \<or> ?n = 5
    \<or> ?n = 6 \<or> ?n = 7 \<or> ?n = 8 \<or> ?n = 9 \<or> ?n = 10" by arith
  then consider "?n = 1" | "?n = 2" | "?n = 3" | "?n = 4" | "?n = 5"
    | "?n = 6" | "?n = 7" | "?n = 8" | "?n = 9" | "?n = 10" by blast
  then show False
  proof cases
    case 1
    with len have "length u = 18" by simp
    with e 1 show False by simp
  next
    case 2
    with len have "length u = 16" by simp
    with e 2 show False by simp
  next
    case 3
    with len have "length u = 14" by simp
    with e 3 show False by simp
  next
    case 4
    with len have "length u = 12" by simp
    with e 4 show False by simp
  next
    case 5
    with len have "length u = 10" by simp
    with e 5 show False by simp
  next
    case 6
    with len have "length u = 8" by simp
    with e 6 show False by simp
  next
    case 7
    with len have "length u = 6" by simp
    with e 7 show False by simp
  next
    case 8
    with len have "length u = 4" by simp
    with e 8 show False by simp
  next
    case 9
    with len have "length u = 2" by simp
    with e 9 show False by simp
  next
    case 10
    with len have "length u = 0" by simp
    with e 10 show False by simp
  qed
qed

lemma found_path_not_message:
  assumes b: "buildElevatorPathTree es se = Inr h"
    and f: "findFinalDestinationPath (tree_of h 0) F (Num t) = Some s"
    and nonempty: "\<forall>k \<in> fst ` set es. k \<noteq> []"
    and t: "t \<noteq> 0"
  shows "s \<noteq> [] \<and> s \<noteq> noSolution"
proof -
  from build_Inr[OF b] have inv: "heap_inv es (length h) h" by blast
  have l: "0 < length h" using heap_inv_bounds[OF inv] by simp
  have g: "generated es (tree_of h 0)" by (rule tree_of_generated[OF inv l])
  from built_search[OF b f] obtain p row where row: "map_of es se = Some row"
    and d: "dfs F (Num t) (tree_of h 0) = Some p"
    and m: "matches F (Num t) (last p)"
    and ne: "p \<noteq> []" and hd: "hd p = NodeData se (index row 0) 0"
    and len: "length p = Suc (time (last p))" and sp: "s = drop 1 (concat (map elevator p))"
    and keys: "\<forall>d \<in> set p. map_of es (elevator d) \<noteq> None"
    by blast
  from m t have "time (last p) \<noteq> 0" by (auto simp: matches_def equals_number_def)
  with len have two: "2 \<le> length p" by simp
  from dfs_last_two(1)[OF d g two] have same: "elevator (last p) = elevator (last (butlast p))" .
  from two obtain q1 c where p1: "p = q1 @ [c]" by (cases p rule: rev_cases) auto
  with two obtain q a where "q1 = q @ [a]" by (cases q1 rule: rev_cases) auto
  with p1 have p: "p = q @ [a, c]" by simp
  let ?w = "elevator c"
  have "butlast p = q @ [a]" unfolding p by (simp add: butlast_append)
  with same p have ac: "elevator a = ?w" by simp
  have key_ne: "k \<noteq> []" if "map_of es k \<noteq> None" for k
    using that nonempty by (auto dest!: map_of_SomeD)
  from keys p have w: "?w \<noteq> []" by (intro key_ne) simp
  from row have sene: "se \<noteq> []" by (intro key_ne) simp
  have cc: "concat (map elevator p) = concat (map elevator q) @ ?w @ ?w"
    using p ac by simp
  show ?thesis
  proof (cases q)
    case Nil
    with p hd have "?w = se" using ac by simp
    with cc Nil sp sene have s: "s = tl se @ se" by (cases se) simp_all
    then have "length s = 2 * length se - 1" using sene by (cases se) simp_all
    moreover have "length se \<noteq> 0" using sene by simp
    ultimately have "odd (length s)" by (cases "length se") simp_all
    then have "length s \<noteq> 20" by auto
    then have "s \<noteq> noSolution" by (auto simp: noSolution_def)
    moreover from s sene have "s \<noteq> []" by simp
    ultimately show ?thesis by simp
  next
    case (Cons x q')
    with p hd have "elevator x = se" by simp
    with Cons sene have "concat (map elevator q) \<noteq> []" by simp
    then have "drop 1 (concat (map elevator q) @ ?w @ ?w) = drop 1 (concat (map elevator q)) @ ?w @ ?w"
      by (cases "concat (map elevator q)") simp_all
    with cc sp have s: "s = drop 1 (concat (map elevator q)) @ ?w @ ?w" by simp
    with no_square_suffix[OF w] have "s \<noteq> noSolution" by (simp add: noSolution_def)
    moreover from s w have "s \<noteq> []" by simp
    ultimately show ?thesis by simp
  qed
qed

section \<open>Small stores used as examples\<close>

text \<open>
  The stores that the builder leaves for a few small schedules (each is checked against
  the builder where it is used): \<open>{A: [1, 4]}\<close>, \<open>{A: [1, 1], B: [1, 1]}\<close>,
  \<open>{A: [2, 0, 3]}\<close>, \<open>{AB: [1]}\<close>, \<open>{A: [1]}\<close>, each from its first elevator,
  and the schedule with the identifiers "XThere is no solution" and "".
\<close>

definition heap_A14 :: heap where
  "heap_A14 =
     [Node (NodeData ''A'' (Some 1) 0) [1],
      Node (NodeData ''A'' (Some 1) 1) [2],
      Node (NodeData ''A'' (Some 4) 2) []]"

definition heap_AB11 :: heap where
  "heap_AB11 =
     [Node (NodeData ''A'' (Some 1) 0) [1, 2],
      Node (NodeData ''A'' (Some 1) 1) [3, 4],
      Node (NodeData ''B'' (Some 1) 1) [5, 6],
      Node (NodeData ''A'' (Some 1) 2) [],
      Node (NodeData ''B'' (Some 1) 2) [],
      Node (NodeData ''B'' (Some 1) 2) [],
      Node (NodeData ''A'' (Some 1) 2) []]"

definition heap_A20 :: heap where
  "heap_A20 =
     [Node (NodeData ''A'' (Some 2) 0) [1],
      Node (NodeData ''A'' (Some 2) 1) []]"

definition heap_AB :: heap where
  "heap_AB =
     [Node (NodeData ''AB'' (Some 1) 0) [1],
      Node (NodeData ''AB'' (Some 1) 1) []]"

definition heap_A1 :: heap where
  "heap_A1 = [Node (NodeData ''A'' (Some 1) 0) [1], Node (NodeData ''A'' (Some 1) 1) []]"

definition heap_X :: heap where
  "heap_X =
     [Node (NodeData ''XThere is no solution'' (Some 1) 0) [1, 2],
      Node (NodeData ''XThere is no solution'' (Some 1) 1) [3],
      Node (NodeData [] (Some 1) 1) [4],
      Node (NodeData ''XThere is no solution'' (Some 2) 2) [],
      Node (NodeData [] (Some 3) 2) []]"

text \<open>The elevators of the children of the node at an address, in order.\<close>

definition child_elevators :: "heap \<Rightarrow> nat \<Rightarrow> string list" where
  "child_elevators h a = map (\<lambda>c. elevator (data (h ! c))) (children (h ! a))"

text \<open>The second test case of the file, which is no claim of its own.\<close>

lemma testCase2_path: "findElevatorPath testCase2 ''B'' ''2-6'' = Inr ''DEECAA''"
  by code_simp

section \<open>The claims\<close>

subsection \<open>C1: the floor of a node\<close>

text \<open>
  C1, as stated: every node other than the root has the floor
  \<open>schedule[elevator][time]\<close>, so that no time index exceeds horizon - 1. It fails
  for the schedule \<open>{A: [1, 4]}\<close>: the child of the root is on A at time 1 with
  floor 1, which is entry 0 of A, not entry 1 (which is 4), and the node after it has
  time 2 although the horizon is 2.
\<close>

theorem C1_counterexample:
  "buildElevatorPathTree [(''A'', [1, 4])] ''A'' = Inr heap_A14
   \<and> floor (data (heap_A14 ! 1)) \<noteq> index [1, 4] (time (data (heap_A14 ! 1)))
   \<and> \<not> time (data (heap_A14 ! 2)) \<le> horizon [(''A'', [1, 4])] - 1"
  by code_simp

text \<open>
  C1, amended: every node other than the root has a time \<open>t > 0\<close> and the floor
  \<open>schedule[elevator][t - 1]\<close>, the entry the loop read when it expanded the parent
  at time \<open>t - 1\<close>; consequently its time is at most the length of its elevator's
  array, hence at most the horizon.
\<close>

theorem C1_node_floor_previous_entry:
  assumes "buildElevatorPathTree es se = Inr h" and "a < length h"
  shows "(0 < a \<longrightarrow>
            (\<exists>row. map_of es (elevator (data (h ! a))) = Some row
               \<and> 0 < time (data (h ! a))
               \<and> floor (data (h ! a)) = index row (time (data (h ! a)) - 1)
               \<and> time (data (h ! a)) \<le> length row))
         \<and> time (data (h ! a)) \<le> horizon es"
proof (cases "a = 0")
  case True
  from build_Inr[OF assms(1)] have "time (data (h ! 0)) = 0" by auto
  with True show ?thesis by simp
next
  case False
  then have pos: "0 < a" by simp
  from build_Inr[OF assms(1)] have inv: "heap_inv es (length h) h" by blast
  have ok: "node_ok es (data (h ! a))" by (rule heap_inv_node_ok[OF inv assms(2) pos])
  then obtain row where row: "map_of es (elevator (data (h ! a))) = Some row"
    by (auto simp: node_ok_def split: option.splits)
  have le: "time (data (h ! a)) \<le> length row" by (rule node_ok_time_le[OF ok row])
  with horizon_ge[OF row] have "time (data (h ! a)) \<le> horizon es" by simp
  with ok row le show ?thesis by (simp add: node_ok_def)
qed

theorem C1_witness:
  "buildElevatorPathTree [(''A'', [1, 4])] ''A'' = Inr heap_A14
   \<and> (2::nat) < length heap_A14
   \<and> (\<exists>row. map_of [(''A'', [1, 4])] (elevator (data (heap_A14 ! 2))) = Some row
          \<and> floor (data (heap_A14 ! 2)) = index row (time (data (heap_A14 ! 2)) - 1)
          \<and> time (data (heap_A14 ! 2)) \<le> length row)
   \<and> time (data (heap_A14 ! 2)) \<le> horizon [(''A'', [1, 4])]"
proof -
  have b: "buildElevatorPathTree [(''A'', [1, 4])] ''A'' = Inr heap_A14" by code_simp
  have l: "2 < length heap_A14" by (simp add: heap_A14_def)
  have p: "(0::nat) < 2" by simp
  from C1_node_floor_previous_entry[OF b l] p b l show ?thesis by blast
qed

subsection \<open>C2: a returned path is a valid ride\<close>

text \<open>
  C2, as stated, is about every schedule. The result is a string: the identifiers of
  the path joined without a separator, minus the first character. For the schedule
  \<open>{AB: [1]}\<close>, from AB to floor 1 at time 1, the query returns BAB: not one
  entry, not the identifier AB, and read one character per time step it is no ride at
  all.
\<close>

theorem C2_counterexample:
  "findElevatorPath [(''AB'', [1])] ''AB'' ''1-1'' = Inr ''BAB''
   \<and> ''BAB'' \<noteq> noSolution
   \<and> parseInt (index (split CHR ''-'' ''1-1'') 1) = Num 1
   \<and> length ''BAB'' \<noteq> 1
   \<and> ''BAB'' \<noteq> ''AB''
   \<and> simulate [(''AB'', [1])] ''AB'' (entry [(''AB'', [1])] ''AB'' 0) 0 (entries ''BAB'') = None"
  by code_simp

text \<open>
  C2, amended: for every schedule whose identifiers all have exactly one character,
  every starting elevator and every destination, if the query returns a path rather
  than the no-solution message, then the destination parses to a target floor and a
  target time, the path has exactly target-time entries (one character each), and
  simulating it from the starting elevator passes only stays and transfers between
  co-located elevators and ends on the target floor.
\<close>

theorem C2_returned_path_valid:
  assumes single: "\<forall>k \<in> fst ` set es. length k = 1"
    and q: "findElevatorPath es se finalDestination = Inr s"
    and ns: "s \<noteq> noSolution"
  shows "\<exists>targetFloor.
           parseInt (index (split CHR ''-'' finalDestination) 0) = Num targetFloor
         \<and> parseInt (index (split CHR ''-'' finalDestination) 1) = Num (int (length s))
         \<and> simulate es se (entry es se 0) 0 (entries s) = Some targetFloor"
proof -
  let ?F = "parseInt (index (split CHR ''-'' finalDestination) 0)"
  let ?T = "parseInt (index (split CHR ''-'' finalDestination) 1)"
  from findElevatorPath_Inr[OF q] obtain h where b: "buildElevatorPathTree es se = Inr h" by blast
  from q ns have f: "findFinalDestinationPath (tree_of h 0) ?F ?T = Some s"
    unfolding findElevatorPath_built[OF b] by (auto split: option.splits if_splits)
  from built_search[OF b f] obtain p row where row: "map_of es se = Some row"
    and m: "matches ?F ?T (last p)"
    and ne: "p \<noteq> []" and hd: "hd p = NodeData se (index row 0) 0"
    and lk: "linked es p"
    and len: "length p = Suc (time (last p))" and sp: "s = drop 1 (concat (map elevator p))"
    and keys: "\<forall>d \<in> set p. map_of es (elevator d) \<noteq> None"
    by blast
  have key1: "length k = 1" if "map_of es k \<noteq> None" for k
    using that single by (auto dest!: map_of_SomeD)
  from row have "length se = 1" by (intro key1) simp
  then obtain c where se: "se = [c]" by (cases se) auto
  from ne hd have "concat (map elevator p) = se @ concat (map elevator (tl p))"
    by (cases p) simp_all
  with sp se have s: "s = concat (map elevator (tl p))" by simp
  have "\<forall>x \<in> set (map elevator (tl p)). length x = 1"
    using keys key1 ne by (auto dest: list.set_sel(2))
  then have "map (\<lambda>c. [c]) (concat (map elevator (tl p))) = map elevator (tl p)"
    by (rule concat_singletons)
  then have ids: "map (\<lambda>c. [c]) s = map elevator (tl p)" using s by simp
  then have "length s = length (tl p)" by (metis length_map)
  with len have ls: "length s = time (last p)" by simp
  from matches_Num[OF m] obtain f where F: "?F = Num f" and fl: "floor (last p) = Some f"
    and T: "?T = Num (int (time (last p)))" by blast
  from ne have p: "p = hd p # tl p" by simp
  have "simulate es (elevator (hd p)) (floor (hd p)) (time (hd p)) (map elevator (tl p))
        = floor (last (hd p # tl p))"
    using lk p by (intro simulate_linked) simp
  also have "hd p # tl p = p" using ne by simp
  finally have "simulate es (elevator (hd p)) (floor (hd p)) (time (hd p)) (map elevator (tl p))
        = Some f" using fl by simp
  then have "simulate es se (entry es se 0) 0 (map (\<lambda>c. [c]) s) = Some f"
    unfolding hd ids using row by (simp add: entry_def)
  with F T ls show ?thesis by (simp add: entries_def)
qed

theorem C2_witness:
  "findElevatorPath testCase1 ''A'' ''5-5'' = Inr ''AABDD''
   \<and> parseInt (index (split CHR ''-'' ''5-5'') 1) = Num (int (length ''AABDD''))
   \<and> simulate testCase1 ''A'' (entry testCase1 ''A'' 0) 0 (entries ''AABDD'') = Some 5"
proof -
  have k: "\<forall>k \<in> fst ` set testCase1. length k = 1" by (simp add: testCase1_def)
  have q: "findElevatorPath testCase1 ''A'' ''5-5'' = Inr ''AABDD''" by code_simp
  have n: "''AABDD'' \<noteq> noSolution" by (simp add: noSolution_def)
  have f: "parseInt (index (split CHR ''-'' ''5-5'') 0) = Num 5" by code_simp
  from C2_returned_path_valid[OF k q n] f q show ?thesis by auto
qed

subsection \<open>C3: the no-solution message\<close>

text \<open>
  C3, as stated: the outcome NotFound of a query can be told from every successful
  result, the zero-transfer path included, because it is a tagged result and not a
  sentinel string. The query returns the string "There is no solution". For
  \<open>{A: [1]}\<close> from A the search for floor 1 at time 0 succeeds with the empty path,
  and the query returns the same message as for floor 2 at time 0, which the search
  does not find. And a successful search can return the very text of the message: with
  the identifiers "XThere is no solution" and "" the path to floor 3 at time 2 is
  encoded as "There is no solution".
\<close>

theorem C3_counterexample:
  "buildElevatorPathTree [(''A'', [1])] ''A'' = Inr heap_A1
   \<and> findFinalDestinationPath (tree_of heap_A1 0) (Num 1) (Num 0) = Some []
   \<and> findElevatorPath [(''A'', [1])] ''A'' ''1-0'' = Inr ''There is no solution''
   \<and> findFinalDestinationPath (tree_of heap_A1 0) (Num 2) (Num 0) = None
   \<and> findElevatorPath [(''A'', [1])] ''A'' ''2-0'' = Inr ''There is no solution''
   \<and> buildElevatorPathTree [(''XThere is no solution'', [1, 2]), ([], [1, 3])]
        ''XThere is no solution'' = Inr heap_X
   \<and> findFinalDestinationPath (tree_of heap_X 0) (Num 3) (Num 2) = Some ''There is no solution''"
  by code_simp

text \<open>
  C3, amended: the search reports NotFound as \<open>null\<close>, and the query then returns
  the message "There is no solution". For a schedule without an empty identifier and a
  target time other than 0, every path that the search finds is a non-empty string
  different from that message, and the query returns it unchanged; so there the two
  outcomes of a query are told apart.
\<close>

theorem C3_not_found_message:
  assumes "buildElevatorPathTree es se = Inr h"
    and "parseInt (index (split CHR ''-'' finalDestination) 0) = finalFloor"
    and "parseInt (index (split CHR ''-'' finalDestination) 1) = finalTimeInterval"
  shows "(findFinalDestinationPath (tree_of h 0) finalFloor finalTimeInterval = None
            \<longrightarrow> findElevatorPath es se finalDestination = Inr noSolution)
         \<and> (\<forall>s t. findFinalDestinationPath (tree_of h 0) finalFloor finalTimeInterval = Some s
                 \<and> finalTimeInterval = Num t \<and> t \<noteq> 0 \<and> (\<forall>k \<in> fst ` set es. k \<noteq> [])
               \<longrightarrow> s \<noteq> [] \<and> s \<noteq> noSolution
                   \<and> findElevatorPath es se finalDestination = Inr s)"
proof -
  have 1: "findElevatorPath es se finalDestination = Inr noSolution"
    if "findFinalDestinationPath (tree_of h 0) finalFloor finalTimeInterval = None"
    using that unfolding findElevatorPath_built[OF assms(1)] assms(2,3) by simp
  have 2: "s \<noteq> [] \<and> s \<noteq> noSolution \<and> findElevatorPath es se finalDestination = Inr s"
    if f: "findFinalDestinationPath (tree_of h 0) finalFloor finalTimeInterval = Some s"
      and T: "finalTimeInterval = Num t" and t: "t \<noteq> 0" and k: "\<forall>k \<in> fst ` set es. k \<noteq> []"
    for s t
  proof -
    from found_path_not_message[OF assms(1) f[unfolded T] k t]
    have n: "s \<noteq> []" "s \<noteq> noSolution" by simp_all
    have "findElevatorPath es se finalDestination = Inr s"
      unfolding findElevatorPath_built[OF assms(1)] assms(2,3) f using n by simp
    with n show ?thesis by simp
  qed
  from 1 2 show ?thesis by blast
qed

theorem C3_witness:
  "buildElevatorPathTree [(''A'', [1, 4])] ''A'' = Inr heap_A14
   \<and> findFinalDestinationPath (tree_of heap_A14 0) (Num 4) (Num 2) = Some ''AA''
   \<and> ''AA'' \<noteq> noSolution
   \<and> findElevatorPath [(''A'', [1, 4])] ''A'' ''4-2'' = Inr ''AA''
   \<and> findFinalDestinationPath (tree_of heap_A14 0) (Num 5) (Num 2) = None
   \<and> findElevatorPath [(''A'', [1, 4])] ''A'' ''5-2'' = Inr noSolution"
proof -
  have b: "buildElevatorPathTree [(''A'', [1, 4])] ''A'' = Inr heap_A14" by code_simp
  have F: "parseInt (index (split CHR ''-'' ''4-2'') 0) = Num 4" by code_simp
  have T: "parseInt (index (split CHR ''-'' ''4-2'') 1) = Num 2" by code_simp
  have f: "findFinalDestinationPath (tree_of heap_A14 0) (Num 4) (Num 2) = Some ''AA''" by code_simp
  have k: "\<forall>k \<in> fst ` set [(''A'', [1, 4 :: int])]. k \<noteq> []" by simp
  have F': "parseInt (index (split CHR ''-'' ''5-2'') 0) = Num 5" by code_simp
  have T': "parseInt (index (split CHR ''-'' ''5-2'') 1) = Num 2" by code_simp
  have f': "findFinalDestinationPath (tree_of heap_A14 0) (Num 5) (Num 2) = None" by code_simp
  have z: "(2::int) \<noteq> 0" by simp
  note found = C3_not_found_message[OF b F T, THEN conjunct2, rule_format, of "''AA''" 2]
  note missing = C3_not_found_message[OF b F' T', THEN conjunct1, rule_format]
  from found[OF conjI[OF f conjI[OF refl conjI[OF z k]]]] missing[OF f'] b f f'
  show ?thesis by simp
qed

subsection \<open>C4: the first test case\<close>

text \<open>
  C4. For the schedule of the first test case, starting elevator A and the destination
  "5-5" (floor 5 at time 5), the query returns the path AABDD: five elevator entries,
  one per time step 1..5.
\<close>

theorem C4_testCase1_path:
  "findElevatorPath testCase1 ''A'' ''5-5'' = Inr ''AABDD''"
  by code_simp

subsection \<open>C5: the third test case\<close>

text \<open>
  C5. For the schedule of the third test case, starting elevator B and the destination
  "2-6" (floor 2 at time 6), the query returns the no-solution message, not a path.
\<close>

theorem C5_testCase3_no_solution:
  "findElevatorPath testCase3 ''B'' ''2-6'' = Inr ''There is no solution''"
  by code_simp

subsection \<open>C6: one node per elevator under each parent\<close>

text \<open>
  C6, as stated: no two distinct nodes carry the same elevator and the same time. It
  fails for \<open>{A: [1, 1], B: [1, 1]}\<close> from A: the nodes at addresses 4 and 5 are
  both on B at time 2, one below the node (A, 1) and one below the node (B, 1).
\<close>

theorem C6_counterexample:
  "buildElevatorPathTree [(''A'', [1, 1]), (''B'', [1, 1])] ''A'' = Inr heap_AB11
   \<and> (4::nat) \<noteq> 5 \<and> 4 < length heap_AB11 \<and> 5 < length heap_AB11
   \<and> elevator (data (heap_AB11 ! 4)) = elevator (data (heap_AB11 ! 5))
   \<and> time (data (heap_AB11 ! 4)) = time (data (heap_AB11 ! 5))"
  by code_simp

text \<open>
  C6, amended: under one parent at most one node is created per elevator. For a
  schedule with distinct keys, the children of any node are distinct nodes on pairwise
  distinct elevators, all at the parent's time plus one.
\<close>

theorem C6_siblings_distinct:
  assumes "buildElevatorPathTree es se = Inr h" and "distinct (map fst es)" and "a < length h"
  shows "distinct (children (h ! a)) \<and> distinct (child_elevators h a)
         \<and> list_all (\<lambda>c. time (data (h ! c)) = time (data (h ! a)) + 1) (children (h ! a))"
proof -
  from build_Inr[OF assms(1)] have inv: "heap_inv es (length h) h" by blast
  have cd: "map (\<lambda>c. data (h ! c)) (children (h ! a)) = child_data es (data (h ! a))"
    by (rule heap_inv_children[OF inv assms(3) assms(3)])
  have "child_elevators h a = map elevator (map (\<lambda>c. data (h ! c)) (children (h ! a)))"
    by (simp add: child_elevators_def comp_def)
  then have e: "distinct (child_elevators h a)"
    unfolding cd using child_data_distinct[OF assms(2)] by simp
  have t: "time (data (h ! c)) = time (data (h ! a)) + 1" if "c \<in> set (children (h ! a))" for c
  proof -
    from that have "data (h ! c) \<in> set (map (\<lambda>c. data (h ! c)) (children (h ! a)))" by simp
    then show ?thesis unfolding cd by (rule child_data_time)
  qed
  from heap_inv_distinct[OF inv assms(3) assms(3)] e t show ?thesis
    by (simp add: list_all_iff)
qed

theorem C6_witness:
  "buildElevatorPathTree [(''A'', [1, 1]), (''B'', [1, 1])] ''A'' = Inr heap_AB11
   \<and> distinct (map fst [(''A'', [1, 1 :: int]), (''B'', [1, 1])])
   \<and> (1::nat) < length heap_AB11
   \<and> distinct (child_elevators heap_AB11 1)
   \<and> child_elevators heap_AB11 1 = [''A'', ''B'']"
proof -
  let ?es = "[(''A'', [1, 1 :: int]), (''B'', [1, 1])]"
  have b: "buildElevatorPathTree ?es ''A'' = Inr heap_AB11" by code_simp
  have d: "distinct (map fst ?es)" by simp
  have l: "1 < length heap_AB11" by (simp add: heap_AB11_def)
  have c: "child_elevators heap_AB11 1 = [''A'', ''B'']" by code_simp
  from C6_siblings_distinct[OF b d l] b d l c show ?thesis by blast
qed

subsection \<open>C7: the search reports a match only at a matching node\<close>

text \<open>
  C7. For every tree, target floor and target time: if the tree contains no node whose
  time equals the target time and whose floor equals the target floor, the search runs
  through the traversal and returns \<open>null\<close>; it returns no path. The statement
  holds for every tree value, so in particular for every tree the builder leaves.
\<close>

theorem C7_search_sound:
  assumes "\<forall>d \<in> set (nodes root). \<not> (int (time d) = targetTime \<and> floor d = Some targetFloor)"
  shows "findFinalDestinationPath root (Num targetFloor) (Num targetTime) = None"
proof -
  have "\<forall>n \<in> set [root]. \<forall>d \<in> set (nodes n). \<not> matches (Num targetFloor) (Num targetTime) d"
    using assms by (auto simp: matches_def equals_number_def equals_floor_def split: option.splits)
  then show ?thesis
    unfolding findFinalDestinationPath_def by (rule searchLoop_no_match)
qed

theorem C7_witness:
  "nodes (tree_of heap_A14 0)
     = [NodeData ''A'' (Some 1) 0, NodeData ''A'' (Some 1) 1, NodeData ''A'' (Some 4) 2]
   \<and> findFinalDestinationPath (tree_of heap_A14 0) (Num 1) (Num 2) = None"
proof -
  have n: "nodes (tree_of heap_A14 0)
             = [NodeData ''A'' (Some 1) 0, NodeData ''A'' (Some 1) 1, NodeData ''A'' (Some 4) 2]"
    by code_simp
  have h: "\<forall>d \<in> set (nodes (tree_of heap_A14 0)). \<not> (int (time d) = 2 \<and> floor d = Some 1)"
    unfolding n by simp
  from C7_search_sound[OF h] n show ?thesis by blast
qed

subsection \<open>C8: a target time beyond the horizon\<close>

text \<open>
  C8, as stated, is about every schedule and every starting elevator. The builder reads
  \<open>elevatorStates[startingElevator][0]\<close> before anything else and checks nothing,
  so for a starting elevator that the schedule does not have the query raises a
  TypeError, whatever the target time: the schedule of the first test case, the starting
  elevator Z and the destination "2-6", whose time 6 exceeds the horizon 5.
\<close>

theorem C8_counterexample:
  "findElevatorPath testCase1 ''Z'' ''2-6'' = Inl TypeError
   \<and> map_of testCase1 ''Z'' = None
   \<and> parseInt (index (split CHR ''-'' ''2-6'') 1) = Num 6
   \<and> int (horizon testCase1) < 6"
  by code_simp

text \<open>
  C8, amended: for every schedule and every starting elevator that is a key of the
  schedule, if the target time parsed from the destination exceeds the horizon (the
  length of the longest array), the query returns the no-solution message and raises
  nothing.
\<close>

theorem C8_time_beyond_horizon:
  assumes "map_of es se = Some row"
    and "parseInt (index (split CHR ''-'' finalDestination) 1) = Num targetTime"
    and "int (horizon es) < targetTime"
  shows "findElevatorPath es se finalDestination = Inr noSolution"
proof -
  from build_ok[OF assms(1)] obtain h where b: "buildElevatorPathTree es se = Inr h" by blast
  let ?F = "parseInt (index (split CHR ''-'' finalDestination) 0)"
  have "\<forall>n \<in> set [tree_of h 0]. \<forall>d \<in> set (nodes n). \<not> matches ?F (Num targetTime) d"
  proof (intro ballI)
    fix n d assume "n \<in> set [tree_of h 0]" "d \<in> set (nodes n)"
    then have "d \<in> set (nodes (tree_of h 0))" by simp
    from built_time_le_horizon[OF b this] assms(3) have "int (time d) \<noteq> targetTime" by simp
    then show "\<not> matches ?F (Num targetTime) d" by (simp add: matches_def equals_number_def)
  qed
  then have "findFinalDestinationPath (tree_of h 0) ?F (Num targetTime) = None"
    unfolding findFinalDestinationPath_def by (rule searchLoop_no_match)
  then show ?thesis using b assms(2) by (simp add: findElevatorPath_def Let_def)
qed

theorem C8_witness:
  "map_of testCase1 ''A'' = Some [1, 4, 3, 2, 2]
   \<and> parseInt (index (split CHR ''-'' ''2-6'') 1) = Num 6
   \<and> int (horizon testCase1) < 6
   \<and> findElevatorPath testCase1 ''A'' ''2-6'' = Inr noSolution"
proof -
  have r: "map_of testCase1 ''A'' = Some [1, 4, 3, 2, 2]" by code_simp
  have p: "parseInt (index (split CHR ''-'' ''2-6'') 1) = Num 6" by code_simp
  have h: "int (horizon testCase1) < 6" by code_simp
  from C8_time_beyond_horizon[OF r p h] r p h show ?thesis by blast
qed

subsection \<open>C9: a floor 0 in the schedule\<close>

text \<open>
  C9, as stated, includes that no node of the built tree has floor 0. The root is made
  from \<open>elevatorStates[startingElevator][0]\<close> without any test, so for
  \<open>{A: [0]}\<close> the root has floor 0.
\<close>

theorem C9_counterexample:
  "buildElevatorPathTree [(''A'', [0])] ''A'' = Inr [Node (NodeData ''A'' (Some 0) 0) []]
   \<and> floor (data ([Node (NodeData ''A'' (Some 0) 0) []] ! 0)) = Some 0"
  by code_simp

text \<open>
  C9, amended: a node whose elevator has the entry 0, or no entry, at the node's time
  gets no child at all; no node other than the root has floor 0 or an undefined floor;
  and on an array of positive floors the truthiness test is the test that the index is
  inside the array.
\<close>

theorem C9_zero_floor_like_undefined:
  assumes "buildElevatorPathTree es se = Inr h" and "a < length h"
    and "map_of es (elevator (data (h ! a))) = Some row"
  shows "(index row (time (data (h ! a))) = Some 0 \<or> index row (time (data (h ! a))) = None
            \<longrightarrow> children (h ! a) = [])
         \<and> (0 < a \<longrightarrow> floor (data (h ! a)) \<noteq> Some 0 \<and> floor (data (h ! a)) \<noteq> None)
         \<and> ((\<forall>f \<in> set row. 0 < f) \<longrightarrow>
              truthy (index row (time (data (h ! a)))) = (time (data (h ! a)) < length row))"
proof -
  from build_Inr[OF assms(1)] have inv: "heap_inv es (length h) h" by blast
  have cd: "map (\<lambda>c. data (h ! c)) (children (h ! a)) = child_data es (data (h ! a))"
    by (rule heap_inv_children[OF inv assms(2) assms(2)])
  have 1: "children (h ! a) = []"
    if "index row (time (data (h ! a))) = Some 0 \<or> index row (time (data (h ! a))) = None"
  proof -
    from that have "\<not> truthy (index row (time (data (h ! a))))" by (auto simp: truthy_def)
    from child_data_falsy[OF assms(3) this] cd show ?thesis by simp
  qed
  have 2: "floor (data (h ! a)) \<noteq> Some 0 \<and> floor (data (h ! a)) \<noteq> None" if "0 < a"
  proof -
    from heap_inv_node_ok[OF inv assms(2) that] have "truthy (floor (data (h ! a)))"
      by (auto simp: node_ok_def split: option.splits)
    then show ?thesis by (auto simp: truthy_def split: option.splits)
  qed
  from 1 2 truthy_positive[of row "time (data (h ! a))"] show ?thesis by blast
qed

theorem C9_witness:
  "buildElevatorPathTree [(''A'', [2, 0, 3])] ''A'' = Inr heap_A20
   \<and> (1::nat) < length heap_A20
   \<and> map_of [(''A'', [2, 0, 3])] (elevator (data (heap_A20 ! 1))) = Some [2, 0, 3]
   \<and> index [2, 0, 3 :: int] (time (data (heap_A20 ! 1))) = Some 0
   \<and> children (heap_A20 ! 1) = []
   \<and> floor (data (heap_A20 ! 1)) \<noteq> Some 0"
proof -
  have b: "buildElevatorPathTree [(''A'', [2, 0, 3])] ''A'' = Inr heap_A20" by code_simp
  have l: "1 < length heap_A20" by (simp add: heap_A20_def)
  have r: "map_of [(''A'', [2, 0, 3])] (elevator (data (heap_A20 ! 1))) = Some [2, 0, 3]"
    by (simp add: heap_A20_def)
  have i: "index [2, 0, 3 :: int] (time (data (heap_A20 ! 1))) = Some 0"
    by (simp add: heap_A20_def index_def)
  from C9_zero_floor_like_undefined[OF b l r] b l r i show ?thesis by simp
qed

subsection \<open>C10: only the first character is removed\<close>

text \<open>
  C10. On success the search returns the concatenation of the elevator identifiers
  along the path from the root to the matching node, with its first character removed.
  When the starting identifier has one character this is the concatenation of the
  identifiers of time steps 1 to the target time, and when every identifier of the
  schedule has one character the result, read one character per entry, is that
  sequence. When the starting identifier has more than one character, the result begins
  with the rest of it and is not that concatenation. Conversely, when the result read
  one character per entry is the sequence of a path with at least one step, the
  starting identifier and every identifier on the path have exactly one character.
\<close>

theorem C10_first_character_removed:
  assumes "buildElevatorPathTree es se = Inr h"
    and "findFinalDestinationPath (tree_of h 0) finalFloor finalTimeInterval = Some s"
  shows "\<exists>p. is_path (tree_of h 0) p \<and> matches finalFloor finalTimeInterval (last p)
           \<and> elevator (hd p) = se \<and> length (tl p) = time (last p)
           \<and> s = drop 1 (concat (map elevator p))
           \<and> (length se = 1 \<longrightarrow> s = concat (map elevator (tl p)))
           \<and> ((\<forall>k \<in> fst ` set es. length k = 1) \<longrightarrow> entries s = map elevator (tl p))
           \<and> (1 < length se \<longrightarrow>
                 s = tl se @ concat (map elevator (tl p)) \<and> tl se \<noteq> []
                 \<and> s \<noteq> concat (map elevator (tl p)))
           \<and> (entries s = map elevator (tl p) \<and> tl p \<noteq> [] \<longrightarrow>
                 (\<forall>d \<in> set p. length (elevator d) = 1))"
proof -
  from built_search[OF assms] obtain p row where row: "map_of es se = Some row"
    and ip: "is_path (tree_of h 0) p" and m: "matches finalFloor finalTimeInterval (last p)"
    and ne: "p \<noteq> []" and hd: "hd p = NodeData se (index row 0) 0"
    and len: "length p = Suc (time (last p))" and sp: "s = drop 1 (concat (map elevator p))"
    and keys: "\<forall>d \<in> set p. map_of es (elevator d) \<noteq> None"
    by blast
  let ?rest = "concat (map elevator (tl p))"
  from ne hd have split: "concat (map elevator p) = se @ ?rest"
    by (cases p) simp_all
  have s2: "s = drop 1 (se @ ?rest)" using sp split by simp
  have one: "s = ?rest" if "length se = 1"
  proof -
    from that obtain c where "se = [c]" by (cases se) auto
    with s2 show ?thesis by simp
  qed
  have all1: "map (\<lambda>c. [c]) s = map elevator (tl p)" if single: "\<forall>k \<in> fst ` set es. length k = 1"
  proof -
    have key1: "length k = 1" if "map_of es k \<noteq> None" for k
      using that single by (auto dest!: map_of_SomeD)
    from row have "length se = 1" by (intro key1) simp
    then have "s = ?rest" by (rule one)
    moreover have "\<forall>x \<in> set (map elevator (tl p)). length x = 1"
      using keys key1 ne by (auto dest: list.set_sel(2))
    then have "map (\<lambda>c. [c]) ?rest = map elevator (tl p)" by (rule concat_singletons)
    ultimately show ?thesis by simp
  qed
  have multi: "s = tl se @ ?rest \<and> tl se \<noteq> [] \<and> s \<noteq> ?rest" if "1 < length se"
  proof -
    from that obtain c r where se: "se = c # r" "r \<noteq> []" by (cases se) auto
    with s2 have "s = r @ ?rest" by simp
    with se show ?thesis by simp
  qed
  have nec: "\<forall>d \<in> set p. length (elevator d) = 1"
    if eq: "map (\<lambda>c. [c]) s = map elevator (tl p)" and t: "tl p \<noteq> []"
  proof -
    from singletons_length[OF eq] have tl1: "\<forall>x \<in> set (map elevator (tl p)). length x = 1" .
    have rest: "?rest = s"
    proof -
      have "concat (map (\<lambda>c. [c]) s) = s" by (induction s) simp_all
      then show ?thesis using eq by simp
    qed
    from t eq have sne: "s \<noteq> []" by auto
    have "length se = 1"
    proof (cases se)
      case Nil
      with s2 rest have "s = drop 1 s" by simp
      then have "length s = length s - 1" by (metis length_drop)
      with sne show ?thesis by (cases s) simp_all
    next
      case (Cons c r)
      with s2 rest have "s = r @ s" by simp
      then have "r = []" by (metis append_self_conv2)
      with Cons show ?thesis by simp
    qed
    moreover have "set p = insert (hd p) (set (tl p))" using ne by (cases p) simp_all
    ultimately show ?thesis using tl1 hd by auto
  qed
  have "length (tl p) = time (last p)" using len by simp
  moreover have "elevator (hd p) = se" using hd by simp
  ultimately show ?thesis unfolding entries_def using ip m sp one all1 multi nec by blast
qed

theorem C10_witness:
  "buildElevatorPathTree [(''AB'', [1])] ''AB'' = Inr heap_AB
   \<and> findFinalDestinationPath (tree_of heap_AB 0) (Num 1) (Num 1) = Some ''BAB''
   \<and> (\<exists>p. is_path (tree_of heap_AB 0) p \<and> matches (Num 1) (Num 1) (last p)
          \<and> ''BAB'' = drop 1 (concat (map elevator p))
          \<and> ''BAB'' = tl ''AB'' @ concat (map elevator (tl p)))"
proof -
  have b: "buildElevatorPathTree [(''AB'', [1])] ''AB'' = Inr heap_AB" by code_simp
  have f: "findFinalDestinationPath (tree_of heap_AB 0) (Num 1) (Num 1) = Some ''BAB''"
    by code_simp
  have l: "1 < length ''AB''" by simp
  from C10_first_character_removed[OF b f] l b f show ?thesis by blast
qed

end
